theory Spec2Isabelle
  imports Complex_Main "HOL-Library.Sublist"
begin

section \<open>JavaScript strings and numbers\<close>

text \<open>
  Strings are lists of 8-bit characters. The functions below are the string methods the
  match engine (\<^verbatim>\<open>app/api/match/route.ts\<close>) and the chess helpers
  (\<^verbatim>\<open>lib/chess-utils.ts\<close>) call, restricted to that character range: case mapping
  touches the letters A-Z / a-z only and white space is the set \<^verbatim>\<open>String.prototype.trim\<close>
  removes within the range.
\<close>

definition ascii_upper :: string where
  "ascii_upper = ''ABCDEFGHIJKLMNOPQRSTUVWXYZ''"

definition ascii_lower :: string where
  "ascii_lower = ''abcdefghijklmnopqrstuvwxyz''"

definition ascii_digits :: string where
  "ascii_digits = ''0123456789''"

definition toLowerCase_char :: "char \<Rightarrow> char" where
  "toLowerCase_char c = (case map_of (zip ascii_upper ascii_lower) c of Some l \<Rightarrow> l | None \<Rightarrow> c)"

definition toUpperCase_char :: "char \<Rightarrow> char" where
  "toUpperCase_char c = (case map_of (zip ascii_lower ascii_upper) c of Some u \<Rightarrow> u | None \<Rightarrow> c)"

definition toLowerCase :: "string \<Rightarrow> string" where
  "toLowerCase s = map toLowerCase_char s"

definition is_space :: "char \<Rightarrow> bool" where
  "is_space c = (c \<in> set [CHR 0x09, CHR 0x0A, CHR 0x0B, CHR 0x0C, CHR 0x0D, CHR '' '', CHR 0xA0])"

definition trim :: "string \<Rightarrow> string" where
  "trim s = rev (dropWhile is_space (rev (dropWhile is_space s)))"

definition is_digit :: "char \<Rightarrow> bool" where
  "is_digit c = (c \<in> set ascii_digits)"

definition digit_val :: "char \<Rightarrow> nat" where
  "digit_val c = length (takeWhile (\<lambda>d. d \<noteq> c) ascii_digits)"

definition digit_char :: "nat \<Rightarrow> char" where
  "digit_char n = ascii_digits ! (n mod 10)"

text \<open>\<^verbatim>\<open>s.includes(t)\<close>: \<open>t\<close> occurs in \<open>s\<close> as a contiguous block.\<close>

fun str_includes :: "string \<Rightarrow> string \<Rightarrow> bool" where
  "str_includes [] t = (t = [])"
| "str_includes (c # s) t = (prefix t (c # s) \<or> str_includes s t)"

text \<open>\<^verbatim>\<open>s.split(sep)\<close> for a one-character separator.\<close>

fun split_on :: "char \<Rightarrow> string \<Rightarrow> string list" where
  "split_on sep [] = [[]]"
| "split_on sep (c # s) =
     (if c = sep then [] # split_on sep s
      else (case split_on sep s of [] \<Rightarrow> [[c]] | w # ws \<Rightarrow> (c # w) # ws))"

text \<open>\<^verbatim>\<open>xs.join(sep)\<close>.\<close>

fun join :: "string \<Rightarrow> string list \<Rightarrow> string" where
  "join sep [] = []"
| "join sep [x] = x"
| "join sep (x # y # ys) = x @ sep @ join sep (y # ys)"

text \<open>\<^verbatim>\<open>xs[i]\<close>, which is \<^verbatim>\<open>undefined\<close> (here \<open>None\<close>) out of range.\<close>

fun nth_opt :: "'a list \<Rightarrow> nat \<Rightarrow> 'a option" where
  "nth_opt [] i = None"
| "nth_opt (x # xs) 0 = Some x"
| "nth_opt (x # xs) (Suc i) = nth_opt xs i"

text \<open>Decimal rendering of a number inside a template literal.\<close>

function show_nat :: "nat \<Rightarrow> string" where
  "show_nat n = (if n < 10 then [digit_char n] else show_nat (n div 10) @ [digit_char n])"
  by pat_completeness auto
termination
  by (relation "measure id") auto

declare show_nat.simps [simp del]

definition show_int :: "int \<Rightarrow> string" where
  "show_int i = (if i < 0 then CHR ''-'' # show_nat (nat (- i)) else show_nat (nat i))"

text \<open>
  \<^verbatim>\<open>parseInt(s, 10)\<close>: leading white space, an optional sign, then the longest run of
  decimal digits; \<^verbatim>\<open>NaN\<close> (here \<open>None\<close>) when there is no digit.
\<close>

definition digits_val :: "string \<Rightarrow> nat" where
  "digits_val ds = foldl (\<lambda>a c. 10 * a + digit_val c) 0 ds"

definition parseInt :: "string \<Rightarrow> int option" where
  "parseInt s =
     (let s1 = dropWhile is_space s;
          neg = (case s1 of [] \<Rightarrow> False | c # _ \<Rightarrow> c = CHR ''-'');
          s2 = (case s1 of [] \<Rightarrow> [] | c # rest \<Rightarrow> if c = CHR ''-'' \<or> c = CHR ''+'' then rest else s1);
          ds = takeWhile is_digit s2
      in if ds = [] then None
         else Some (if neg then - int (digits_val ds) else int (digits_val ds)))"

text \<open>A JavaScript number as the request body can carry it.\<close>

datatype js_number = Finite rat | NaN | PosInfinity | NegInfinity

section \<open>Chess helpers (lib/chess-utils.ts)\<close>

datatype color = White | Black

fun opponent :: "color \<Rightarrow> color" where
  "opponent White = Black"
| "opponent Black = White"

fun color_char :: "color \<Rightarrow> char" where
  "color_char White = CHR ''w''"
| "color_char Black = CHR ''b''"

text \<open>
  A per-colour object such as \<^verbatim>\<open>{ white: 0, black: 0 }\<close>, read and written at a colour.
\<close>

record 'a by_color =
  white :: 'a
  black :: 'a

fun cget :: "color \<Rightarrow> 'a by_color \<Rightarrow> 'a" where
  "cget White m = white m"
| "cget Black m = black m"

fun cset :: "color \<Rightarrow> 'a \<Rightarrow> 'a by_color \<Rightarrow> 'a by_color" where
  "cset White v m = m\<lparr>white := v\<rparr>"
| "cset Black v m = m\<lparr>black := v\<rparr>"

text \<open>
  The value \<^verbatim>\<open>parseUciMove\<close> returns: squares are two-character strings, the promotion
  piece a one-character piece symbol.
\<close>

record uci_move =
  from_sq :: string
  to_sq :: string
  promotion :: "char option"

definition files :: string where
  "files = ''abcdefgh''"

text \<open>\<^verbatim>\<open>/^[a-h][1-8]$/.test(value)\<close>\<close>

definition isSquare :: "string \<Rightarrow> bool" where
  "isSquare v = (case v of [f, r] \<Rightarrow> f \<in> set files \<and> r \<in> set ''12345678'' | _ \<Rightarrow> False)"

text \<open>\<^verbatim>\<open>.replace(/[^a-z0-9]/g, "")\<close>\<close>

definition strip_non_alnum :: "string \<Rightarrow> string" where
  "strip_non_alnum s = filter (\<lambda>c. c \<in> set ascii_lower \<or> c \<in> set ascii_digits) s"

text \<open>\<^verbatim>\<open>.replace(/^move:?/i, "")\<close>\<close>

definition strip_move_label :: "string \<Rightarrow> string" where
  "strip_move_label s =
     (if toLowerCase (take 4 s) = ''move''
      then (case drop 4 s of [] \<Rightarrow> [] | c # rest \<Rightarrow> if c = CHR '':'' then rest else c # rest)
      else s)"

definition clean_move_text :: "string \<Rightarrow> string" where
  "clean_move_text raw = trim (strip_move_label (strip_non_alnum (toLowerCase (trim raw))))"

definition parseUciMove :: "string \<Rightarrow> uci_move option" where
  "parseUciMove raw =
     (let cleaned = clean_move_text raw in
      if cleaned = ''resign'' \<or> cleaned = [] then None
      else if length cleaned < 4 \<or> length cleaned > 5 then None
      else
        let from = take 2 cleaned;
            to = take 2 (drop 2 cleaned)
        in if \<not> isSquare from \<or> \<not> isSquare to then None
           else
             let promo = nth_opt cleaned 4
             in (case promo of
                   None \<Rightarrow> Some \<lparr>from_sq = from, to_sq = to, promotion = promo\<rparr>
                 | Some p \<Rightarrow>
                     if \<not> str_includes ''qrbn'' [p]
                     then Some \<lparr>from_sq = from, to_sq = to, promotion = None\<rparr>
                     else Some \<lparr>from_sq = from, to_sq = to, promotion = promo\<rparr>))"

text \<open>
  The rules library (\<^verbatim>\<open>chess.js\<close>) is a collaborator of the engine, not part of it:
  the engine is parameterised over the operations it calls. \<open>'p\<close> is the type of a
  \<^verbatim>\<open>Chess\<close> object. A call that throws is \<open>None\<close>.
\<close>

type_synonym piece = "char \<times> color"

type_synonym board = "piece option list list"

record move_result =
  m_from :: string
  m_to :: string
  m_promotion :: "char option"
  m_san :: string

record 'p rules =
  chess_new :: 'p
  chess_load :: "string \<Rightarrow> 'p option"
  chess_turn :: "'p \<Rightarrow> color"
  chess_fen :: "'p \<Rightarrow> string"
  chess_move :: "'p \<Rightarrow> string \<Rightarrow> (move_result \<times> 'p) option"
  chess_get :: "'p \<Rightarrow> string \<Rightarrow> piece option"
  chess_moves :: "'p \<Rightarrow> move_result list"
  chess_board :: "'p \<Rightarrow> board"
  chess_history :: "'p \<Rightarrow> string list"
  chess_pgn :: "'p \<Rightarrow> string"
  chess_isCheckmate :: "'p \<Rightarrow> bool"
  chess_isStalemate :: "'p \<Rightarrow> bool"
  chess_isThreefoldRepetition :: "'p \<Rightarrow> bool"
  chess_isInsufficientMaterial :: "'p \<Rightarrow> bool"
  chess_isDraw :: "'p \<Rightarrow> bool"

text \<open>
  \<^verbatim>\<open>squareToIndex\<close> returns \<^verbatim>\<open>{ rank, file }\<close>, here the pair \<open>(rank, file)\<close>.
  Its parameter has the type \<^verbatim>\<open>Square\<close> (a1 .. h8); \<open>None\<close> stands for a string
  outside that type.
\<close>

definition squareToIndex :: "string \<Rightarrow> (nat \<times> nat) option" where
  "squareToIndex square =
     (if isSquare square
      then Some (8 - digit_val (square ! 1), length (takeWhile (\<lambda>x. x \<noteq> square ! 0) files))
      else None)"

text \<open>The body of the \<^verbatim>\<open>for (const square of rank)\<close> loop of \<^verbatim>\<open>boardToFen\<close>.\<close>

fun rankToFen :: "piece option list \<Rightarrow> nat \<Rightarrow> string \<Rightarrow> string" where
  "rankToFen [] n_empty row = (if n_empty \<noteq> 0 then row @ show_nat n_empty else row)"
| "rankToFen (None # rest) n_empty row = rankToFen rest (n_empty + 1) row"
| "rankToFen (Some (symbol, c) # rest) n_empty row =
     (let row1 = (if n_empty \<noteq> 0 then row @ show_nat n_empty else row)
      in rankToFen rest 0
           (row1 @ [if c = White then toUpperCase_char symbol else toLowerCase_char symbol]))"

definition boardToFen :: "board \<Rightarrow> string" where
  "boardToFen b = join ''/'' (map (\<lambda>rank. rankToFen rank 0 []) b)"

record chaos_result =
  ch_fen :: string
  ch_san :: string

definition promotion_text :: "char option \<Rightarrow> string" where
  "promotion_text p = (case p of None \<Rightarrow> [] | Some c \<Rightarrow> [c])"

text \<open>
  \<^verbatim>\<open>applyChaosMove\<close>. \<open>None\<close> is an exception: \<^verbatim>\<open>new Chess(fen)\<close> throws, or a
  rank of the board is missing.
\<close>

definition applyChaosMove ::
  "'p rules \<Rightarrow> string \<Rightarrow> uci_move \<Rightarrow> color \<Rightarrow> int \<Rightarrow> chaos_result option" where
  "applyChaosMove r fen uci c fullmoveNumber =
     (case chess_load r fen of
        None \<Rightarrow> None
      | Some base \<Rightarrow>
          (case (squareToIndex (from_sq uci), squareToIndex (to_sq uci)) of
             (Some (fromRank, fromFile), Some (toRank, toFile)) \<Rightarrow>
               let b = chess_board r base in
               (case nth_opt b fromRank of
                  None \<Rightarrow> None
                | Some fromRow \<Rightarrow>
                    let existing = (case nth_opt fromRow fromFile of Some (Some pc) \<Rightarrow> Some pc | _ \<Rightarrow> None);
                        pc = (case existing of
                                Some e \<Rightarrow> e
                              | None \<Rightarrow> (case promotion uci of Some t \<Rightarrow> t | None \<Rightarrow> CHR ''p'', c));
                        b1 = b[fromRank := fromRow[fromFile := None]]
                    in (case nth_opt b1 toRank of
                          None \<Rightarrow> None
                        | Some toRow \<Rightarrow>
                            let b2 = b1[toRank := toRow[toFile :=
                                       Some (case promotion uci of Some t \<Rightarrow> t | None \<Rightarrow> fst pc, c)]];
                                placement = boardToFen b2;
                                nextTurn = (if c = White then Black else White);
                                nextFullmove = (if c = Black then fullmoveNumber + 1 else fullmoveNumber);
                                nextFen = placement @ '' '' @ [color_char nextTurn] @ '' - - 0 ''
                                            @ show_int nextFullmove
                            in Some \<lparr>ch_fen = nextFen,
                                     ch_san = from_sq uci @ to_sq uci @ promotion_text (promotion uci)\<rparr>))
           | _ \<Rightarrow> None))"

text \<open>
  The cell of a board at a square, and the shape of a board as \<^verbatim>\<open>chess.board()\<close>
  returns it: eight ranks of eight cells, each empty or a piece with one of the symbols
  p, n, b, r, q, k.
\<close>

definition square_at :: "board \<Rightarrow> string \<Rightarrow> piece option" where
  "square_at b sq =
     (case squareToIndex sq of
        None \<Rightarrow> None
      | Some (rk, fl) \<Rightarrow>
          (case nth_opt b rk of
             None \<Rightarrow> None
           | Some row \<Rightarrow> (case nth_opt row fl of None \<Rightarrow> None | Some cell \<Rightarrow> cell)))"

definition piece_symbols :: string where
  "piece_symbols = ''pnbrqk''"

definition cell_ok :: "piece option \<Rightarrow> bool" where
  "cell_ok cell = (case cell of None \<Rightarrow> True | Some pc \<Rightarrow> fst pc \<in> set piece_symbols)"

definition board_ok :: "board \<Rightarrow> bool" where
  "board_ok b = (length b = 8 \<and> list_all (\<lambda>row. length row = 8 \<and> list_all cell_ok row) b)"

section \<open>The match engine (app/api/match/route.ts)\<close>

datatype match_mode = Strict | Chaos | Bullet

text \<open>
  The fields of the request body the engine reads, and the module constant
  \<^verbatim>\<open>MOVE_TIMEOUT_MS\<close>, which the module reads from the environment (12000 by default).
  Milliseconds and minutes are rational numbers; the rounding of double arithmetic is
  not modelled.
\<close>

record config =
  whiteModel :: string
  blackModel :: string
  mode :: match_mode
  clockMinutes :: "js_number option"
  MOVE_TIMEOUT_MS :: rat

datatype winner = Winner color | Draw

datatype reason =
  Checkmate | Resignation | Illegal | Timeout | Stalemate | FiftyMove | Insufficient | Threefold | MaxMove

record illegal_summary =
  il_by :: color
  il_move :: string
  il_reason :: string
  il_strikes :: nat
  il_ply :: nat

record match_result =
  res_winner :: winner
  res_reason :: reason
  res_moves :: "string list"
  res_pgn :: string
  res_illegalCounts :: "nat by_color"
  res_clocks :: "rat by_color option"
  res_finalFen :: string
  res_lastIllegalMoves :: "illegal_summary option by_color option"

text \<open>
  The text of a status message is built from a template; the model keeps which template
  it is and the values put into it.
\<close>

datatype status_message =
    MatchStarting
  | FlaggedOnTime color rat
  | EmptyMoveStrike color nat
  | ModelError color string
  | IllegalMoveStrike color string string nat
  | ChaosInvalidBoard

record move_event =
  mv_move :: string
  mv_fen :: string
  mv_san :: "string option"
  mv_displayMoveNum :: "nat option"
  mv_ply :: nat
  mv_activeColor :: color
  mv_illegalCounts :: "nat by_color"
  mv_clocks :: "rat by_color option"
  mv_note :: "string option"
  mv_timestamp :: rat

datatype event =
    Status status_message "nat by_color option" "rat by_color option" "illegal_summary option"
  | Move move_event
  | End match_result

text \<open>
  The variables of \<^verbatim>\<open>start(controller)\<close>, and the stream controller itself: the events
  enqueued so far and whether \<^verbatim>\<open>controller.close()\<close> has been called.
\<close>

record 'p state =
  fen :: string
  chess :: 'p
  fullmove :: int
  illegalCounts :: "nat by_color"
  moves :: "string list"
  lastIllegal :: "(string \<times> string) option by_color"
  lastIllegalMoves :: "illegal_summary option by_color"
  clocks :: "rat by_color"
  out :: "event list"
  closed :: bool

text \<open>
  The model-call step \<^verbatim>\<open>fetchMove(activeModel, gatewayProvider, prompt, perMoveTimeout)\<close>
  is the other collaborator. A request carries the model, the inputs of the prompt and the
  timeout; the answer is the text returned or the message of the error thrown, with the
  wall-clock time \<^verbatim>\<open>Date.now() - moveStartTime\<close> the call took. An agent answers the
  request of each ply.
\<close>

record prompt_input =
  pi_fen :: string
  pi_history :: "string list"
  pi_activeColor :: color
  pi_mode :: match_mode
  pi_clockMsRemaining :: "rat option"
  pi_initialClockMs :: "rat option"
  pi_lastMove :: "(string \<times> string) option"

record request =
  rq_model :: string
  rq_prompt :: prompt_input
  rq_timeout :: rat

datatype fetch_outcome = Returned string | Threw string

record response =
  rs_outcome :: fetch_outcome
  rs_moveTime :: rat

type_synonym agent = "nat \<Rightarrow> request \<Rightarrow> response"

datatype flow = Continue | Return

definition MAX_PLY :: nat where
  "MAX_PLY = 400"

definition isBullet :: "config \<Rightarrow> bool" where
  "isBullet cfg = (mode cfg = Bullet)"

definition initialClockMs :: "config \<Rightarrow> rat" where
  "initialClockMs cfg =
     (let requestedMinutes = (case clockMinutes cfg of None \<Rightarrow> Finite 3 | Some n \<Rightarrow> n);
          safeClockMinutes = (case requestedMinutes of Finite q \<Rightarrow> q | _ \<Rightarrow> 3)
      in if isBullet cfg then min 3 (max 1 safeClockMinutes) * 60000 else 0)"

text \<open>\<^verbatim>\<open>clocks[activeColor] || MOVE_TIMEOUT_MS\<close> takes the constant when the clock is 0.\<close>

definition perMoveTimeout :: "config \<Rightarrow> rat \<Rightarrow> rat" where
  "perMoveTimeout cfg clock =
     (if isBullet cfg
      then max 500 (min (MOVE_TIMEOUT_MS cfg) (if clock = 0 then MOVE_TIMEOUT_MS cfg else clock))
      else MOVE_TIMEOUT_MS cfg)"

definition send :: "'p state \<Rightarrow> event \<Rightarrow> 'p state" where
  "send s e = s\<lparr>out := out s @ [e]\<rparr>"

definition close :: "'p state \<Rightarrow> 'p state" where
  "close s = s\<lparr>closed := True\<rparr>"

text \<open>\<^verbatim>\<open>isBullet ? { whiteMs: clocks.white, blackMs: clocks.black } : undefined\<close>\<close>

definition clockSnapshot :: "config \<Rightarrow> 'p state \<Rightarrow> rat by_color option" where
  "clockSnapshot cfg s = (if isBullet cfg then Some (clocks s) else None)"

definition buildResult ::
  "'p rules \<Rightarrow> winner \<Rightarrow> reason \<Rightarrow> string list \<Rightarrow> nat by_color \<Rightarrow> 'p \<Rightarrow> rat by_color option
     \<Rightarrow> illegal_summary option by_color option \<Rightarrow> match_result" where
  "buildResult r w rsn mvs counts ch clk lil =
     \<lparr>res_winner = w, res_reason = rsn, res_moves = mvs,
      res_pgn = (if length (chess_history r ch) > 0 then chess_pgn r ch else join '' '' mvs),
      res_illegalCounts = counts, res_clocks = clk, res_finalFen = chess_fen r ch,
      res_lastIllegalMoves = lil\<rparr>"

text \<open>
  The closing sequence of every terminal branch with the usual arguments:
  \<^verbatim>\<open>send(controller, { type: "end", result }); controller.close(); return;\<close>
\<close>

definition endMatch :: "config \<Rightarrow> 'p rules \<Rightarrow> winner \<Rightarrow> reason \<Rightarrow> 'p state \<Rightarrow> 'p state" where
  "endMatch cfg r w rsn s =
     close (send s (End (buildResult r w rsn (moves s) (illegalCounts s) (chess s)
                           (clockSnapshot cfg s) (Some (lastIllegalMoves s)))))"

definition request_for :: "config \<Rightarrow> 'p rules \<Rightarrow> 'p state \<Rightarrow> request" where
  "request_for cfg r s =
     (let activeColor = chess_turn r (chess s)
      in \<lparr>rq_model = (if activeColor = White then whiteModel cfg else blackModel cfg),
          rq_prompt = \<lparr>pi_fen = fen s, pi_history = moves s, pi_activeColor = activeColor,
                        pi_mode = mode cfg,
                        pi_clockMsRemaining = (if isBullet cfg then Some (cget activeColor (clocks s)) else None),
                        pi_initialClockMs = (if isBullet cfg then Some (initialClockMs cfg) else None),
                        pi_lastMove = cget activeColor (lastIllegal s)\<rparr>,
          rq_timeout = perMoveTimeout cfg (cget activeColor (clocks s))\<rparr>)"

text \<open>\<^verbatim>\<open>clocks[activeColor] = Math.max(0, clocks[activeColor] - moveTime)\<close>, under \<^verbatim>\<open>if (isBullet)\<close>.\<close>

definition chargeClock :: "config \<Rightarrow> color \<Rightarrow> rat \<Rightarrow> 'p state \<Rightarrow> 'p state" where
  "chargeClock cfg activeColor moveTime s =
     (if isBullet cfg
      then s\<lparr>clocks := cset activeColor (max 0 (cget activeColor (clocks s) - moveTime)) (clocks s)\<rparr>
      else s)"

definition flagged :: "config \<Rightarrow> color \<Rightarrow> 'p state \<Rightarrow> bool" where
  "flagged cfg activeColor s = (isBullet cfg \<and> cget activeColor (clocks s) \<le> 0)"

definition flagOnTime :: "'p rules \<Rightarrow> color \<Rightarrow> rat \<Rightarrow> 'p state \<Rightarrow> 'p state" where
  "flagOnTime r activeColor moveTime s =
     (let snapshot = clocks s;
          result = buildResult r (Winner (opponent activeColor)) Timeout (moves s) (illegalCounts s)
                     (chess s) (Some snapshot) None;
          s1 = send s (Status (FlaggedOnTime activeColor moveTime) (Some (illegalCounts s))
                         (Some snapshot) None)
      in close (send s1 (End result)))"

definition strikeOut :: "config \<Rightarrow> color \<Rightarrow> 'p state \<Rightarrow> bool" where
  "strikeOut cfg activeColor s =
     ((mode cfg = Strict \<or> mode cfg = Bullet) \<and> cget activeColor (illegalCounts s) \<ge> 3)"

fun color_name :: "color \<Rightarrow> string" where
  "color_name White = ''white''"
| "color_name Black = ''black''"

definition addStrike :: "color \<Rightarrow> 'p state \<Rightarrow> 'p state" where
  "addStrike activeColor s =
     s\<lparr>illegalCounts := cset activeColor (cget activeColor (illegalCounts s) + 1) (illegalCounts s)\<rparr>"

text \<open>
  The branch \<^verbatim>\<open>if (emptyMove)\<close>: the call failed with the message of an empty response.
\<close>

definition noteEmptyMove :: "config \<Rightarrow> nat \<Rightarrow> color \<Rightarrow> 'p state \<Rightarrow> 'p state" where
  "noteEmptyMove cfg ply activeColor s =
     (let s1 = addStrike activeColor s;
          rsn = ''Model returned an empty move'';
          s2 = s1\<lparr>lastIllegal := cset activeColor (Some (''(empty)'', rsn)) (lastIllegal s1)\<rparr>;
          summary = \<lparr>il_by = activeColor, il_move = ''(empty)'', il_reason = rsn,
                      il_strikes = cget activeColor (illegalCounts s2), il_ply = ply\<rparr>;
          s3 = s2\<lparr>lastIllegalMoves := cset activeColor (Some summary) (lastIllegalMoves s2)\<rparr>
      in send s3 (Status (EmptyMoveStrike activeColor (cget activeColor (illegalCounts s3)))
                    (Some (illegalCounts s3)) (clockSnapshot cfg s3)
                    (cget activeColor (lastIllegalMoves s3))))"

definition onEmptyMove :: "config \<Rightarrow> 'p rules \<Rightarrow> nat \<Rightarrow> color \<Rightarrow> 'p state \<Rightarrow> flow \<times> 'p state" where
  "onEmptyMove cfg r ply activeColor s =
     (let s4 = noteEmptyMove cfg ply activeColor s
      in if strikeOut cfg activeColor s4
         then (Return, endMatch cfg r (Winner (opponent activeColor)) Illegal s4)
         else (Continue, s4))"

text \<open>A call failure that is not an empty response: loss by timeout.\<close>

definition onCallFailure :: "config \<Rightarrow> 'p rules \<Rightarrow> color \<Rightarrow> string \<Rightarrow> 'p state \<Rightarrow> flow \<times> 'p state" where
  "onCallFailure cfg r activeColor message s =
     (let w = (if activeColor = White then Black else White);
          result = buildResult r (Winner w) Timeout (moves s) (illegalCounts s) (chess s)
                     (clockSnapshot cfg s) (Some (lastIllegalMoves s));
          s1 = send s (Status (ModelError activeColor message) None None None)
      in (Return, close (send s1 (End result))))"

definition onResign :: "config \<Rightarrow> 'p rules \<Rightarrow> nat \<Rightarrow> color \<Rightarrow> rat \<Rightarrow> 'p state \<Rightarrow> flow \<times> 'p state" where
  "onResign cfg r ply activeColor moveTime s =
     (let w = (if activeColor = White then Black else White);
          result = buildResult r (Winner w) Resignation (moves s) (illegalCounts s) (chess s)
                     (clockSnapshot cfg s) (Some (lastIllegalMoves s));
          s1 = send s (Move \<lparr>mv_move = ''resign'', mv_fen = fen s, mv_san = None,
                              mv_displayMoveNum = None, mv_ply = ply, mv_activeColor = activeColor,
                              mv_illegalCounts = illegalCounts s, mv_clocks = clockSnapshot cfg s,
                              mv_note = None, mv_timestamp = moveTime\<rparr>)
      in (Return, close (send s1 (End result))))"

text \<open>The rejection reason computed after \<^verbatim>\<open>chess.move\<close> has refused the text.\<close>

definition illegalReason :: "'p rules \<Rightarrow> 'p \<Rightarrow> color \<Rightarrow> string \<Rightarrow> string" where
  "illegalReason r ch activeColor cleaned =
     (case parseUciMove cleaned of
        None \<Rightarrow> ''Could not parse move text''
      | Some parsedUci \<Rightarrow>
          (case chess_get r ch (from_sq parsedUci) of
             None \<Rightarrow> ''No piece on '' @ from_sq parsedUci
           | Some pc \<Rightarrow>
               if snd pc \<noteq> chess_turn r ch
               then ''Piece on '' @ from_sq parsedUci @ '' is not '' @ color_name activeColor
               else if \<not> list_ex (\<lambda>m. m_from m = from_sq parsedUci \<and> m_to m = to_sq parsedUci
                                      \<and> (promotion parsedUci = None \<or> m_promotion m = promotion parsedUci))
                                 (chess_moves r ch)
               then ''Move violates chess rules (blocked/check/etc.)''
               else ''Illegal move in current position''))"

text \<open>\<^verbatim>\<open>fullmove = parseInt(fen.split(" ")[5], 10) || fullmove\<close>\<close>

definition fullmoveOf :: "string \<Rightarrow> int \<Rightarrow> int" where
  "fullmoveOf f old =
     (case nth_opt (split_on CHR '' '' f) 5 of
        None \<Rightarrow> old
      | Some field \<Rightarrow> (case parseInt field of None \<Rightarrow> old | Some n \<Rightarrow> if n = 0 then old else n))"

definition chaosNote :: string where
  "chaosNote = ''Chaos move executed despite illegality''"

text \<open>
  The block \<^verbatim>\<open>if (mode === "chaos")\<close> of the illegal branch. \<open>None\<close>: an exception
  of \<^verbatim>\<open>applyChaosMove\<close>, which nothing catches. \<open>Return\<close>: the rules library refused
  the position, the match is over. \<open>Continue\<close>: control goes on to the strike check.
\<close>

definition chaosBlock ::
  "config \<Rightarrow> 'p rules \<Rightarrow> nat \<Rightarrow> color \<Rightarrow> rat \<Rightarrow> string \<Rightarrow> 'p state \<Rightarrow> (flow \<times> 'p state) option" where
  "chaosBlock cfg r ply activeColor moveTime cleaned s =
     (if mode cfg = Chaos
      then (case parseUciMove cleaned of
              None \<Rightarrow> Some (Continue, s)
            | Some parsedChaos \<Rightarrow>
                (case applyChaosMove r (fen s) parsedChaos (chess_turn r (chess s)) (fullmove s) of
                   None \<Rightarrow> None
                 | Some chaos \<Rightarrow>
                     let s1 = s\<lparr>fen := ch_fen chaos\<rparr>
                     in (case chess_load r (fen s1) of
                           None \<Rightarrow>
                             let result = buildResult r (Winner (opponent activeColor)) Illegal (moves s1)
                                            (illegalCounts s1) (chess s1) (clockSnapshot cfg s1)
                                            (Some (lastIllegalMoves s1));
                                 s2 = send s1 (Status ChaosInvalidBoard (Some (illegalCounts s1))
                                                 (clockSnapshot cfg s1) None)
                             in Some (Return, close (send s2 (End result)))
                         | Some loaded \<Rightarrow>
                             let s2 = s1\<lparr>chess := loaded\<rparr>;
                                 s3 = s2\<lparr>fullmove := fullmoveOf (fen s2) (fullmove s2)\<rparr>;
                                 s4 = s3\<lparr>moves := moves s3 @ [ch_san chaos]\<rparr>
                             in Some (Continue,
                                  send s4 (Move \<lparr>mv_move = ch_san chaos, mv_fen = fen s4,
                                      mv_san = Some (ch_san chaos),
                                      mv_displayMoveNum = Some (length (moves s4) div 2 + 1),
                                      mv_ply = ply, mv_activeColor = activeColor,
                                      mv_illegalCounts = illegalCounts s4,
                                      mv_clocks = clockSnapshot cfg s4,
                                      mv_note = Some chaosNote, mv_timestamp = moveTime\<rparr>)))))
      else Some (Continue, s))"

text \<open>
  The branch \<^verbatim>\<open>if (!moveResult)\<close>: the rules library refused the text. First the
  strike is counted and remembered and the status event sent; then the chaos block and
  the strike check follow.
\<close>

definition noteIllegal ::
  "config \<Rightarrow> 'p rules \<Rightarrow> nat \<Rightarrow> color \<Rightarrow> string \<Rightarrow> string \<Rightarrow> 'p state \<Rightarrow> 'p state" where
  "noteIllegal cfg r ply activeColor rawTrimmed cleaned s =
     (let s1 = addStrike activeColor s;
          rsn = illegalReason r (chess s1) activeColor cleaned;
          s2 = s1\<lparr>lastIllegal := cset activeColor (Some (rawTrimmed, rsn)) (lastIllegal s1)\<rparr>;
          summary = \<lparr>il_by = activeColor,
                      il_move = (if rawTrimmed = [] then ''(empty move)'' else rawTrimmed),
                      il_reason = rsn, il_strikes = cget activeColor (illegalCounts s2), il_ply = ply\<rparr>;
          s3 = s2\<lparr>lastIllegalMoves := cset activeColor (Some summary) (lastIllegalMoves s2)\<rparr>
      in send s3 (Status (IllegalMoveStrike activeColor (if cleaned = [] then ''empty'' else cleaned)
                            rsn (cget activeColor (illegalCounts s3)))
                    (Some (illegalCounts s3)) (clockSnapshot cfg s3)
                    (cget activeColor (lastIllegalMoves s3))))"

definition onIllegal ::
  "config \<Rightarrow> 'p rules \<Rightarrow> nat \<Rightarrow> color \<Rightarrow> rat \<Rightarrow> string \<Rightarrow> string \<Rightarrow> 'p state \<Rightarrow> (flow \<times> 'p state) option" where
  "onIllegal cfg r ply activeColor moveTime rawTrimmed cleaned s =
     (case chaosBlock cfg r ply activeColor moveTime cleaned
             (noteIllegal cfg r ply activeColor rawTrimmed cleaned s) of
        None \<Rightarrow> None
      | Some (Return, s5) \<Rightarrow> Some (Return, s5)
      | Some (Continue, s5) \<Rightarrow>
          if strikeOut cfg activeColor s5
          then Some (Return, endMatch cfg r (Winner (opponent activeColor)) Illegal s5)
          else Some (Continue, s5))"

text \<open>
  The rest of the loop body, after \<^verbatim>\<open>chess.move\<close> has accepted the text: \<open>moveResult\<close>
  is the move it returned and \<open>moved\<close> the \<^verbatim>\<open>Chess\<close> object after the move.
\<close>

definition onLegal ::
  "config \<Rightarrow> 'p rules \<Rightarrow> nat \<Rightarrow> color \<Rightarrow> rat \<Rightarrow> move_result \<Rightarrow> 'p \<Rightarrow> 'p state \<Rightarrow> flow \<times> 'p state" where
  "onLegal cfg r ply activeColor moveTime moveResult moved s =
     (let s0 = s\<lparr>chess := moved\<rparr>;
          moveUci = m_from moveResult @ m_to moveResult @ promotion_text (m_promotion moveResult);
          displayMoveNum = length (moves s0) div 2 + 1;
          s1 = s0\<lparr>moves := moves s0 @ [moveUci]\<rparr>;
          s2 = s1\<lparr>fen := chess_fen r (chess s1)\<rparr>;
          s3 = s2\<lparr>fullmove := fullmoveOf (fen s2) (fullmove s2)\<rparr>;
          s4 = s3\<lparr>illegalCounts := cset activeColor 0 (illegalCounts s3)\<rparr>;
          s5 = s4\<lparr>lastIllegal := cset activeColor None (lastIllegal s4)\<rparr>;
          s6 = send s5 (Move \<lparr>mv_move = moveUci, mv_fen = fen s5, mv_san = Some (m_san moveResult),
                              mv_displayMoveNum = Some displayMoveNum, mv_ply = ply,
                              mv_activeColor = activeColor, mv_illegalCounts = illegalCounts s5,
                              mv_clocks = clockSnapshot cfg s5, mv_note = None,
                              mv_timestamp = moveTime\<rparr>)
      in if chess_isCheckmate r (chess s6) then (Return, endMatch cfg r (Winner activeColor) Checkmate s6)
         else if chess_isStalemate r (chess s6) then (Return, endMatch cfg r Draw Stalemate s6)
         else if chess_isThreefoldRepetition r (chess s6) then (Return, endMatch cfg r Draw Threefold s6)
         else if chess_isInsufficientMaterial r (chess s6) then (Return, endMatch cfg r Draw Insufficient s6)
         else if chess_isDraw r (chess s6) then (Return, endMatch cfg r Draw FiftyMove s6)
         else (Continue, s6))"

text \<open>
  One iteration of \<^verbatim>\<open>for (let ply = 0; ply < MAX_PLY; ply++)\<close>, given the answer of the
  model-call step. \<open>Continue\<close> is the next iteration (\<^verbatim>\<open>continue\<close> or the end of the
  body), \<open>Return\<close> is \<^verbatim>\<open>return\<close>, \<open>None\<close> an exception nothing catches.
\<close>

definition step :: "config \<Rightarrow> 'p rules \<Rightarrow> nat \<Rightarrow> response \<Rightarrow> 'p state \<Rightarrow> (flow \<times> 'p state) option" where
  "step cfg r ply resp s =
     (let activeColor = chess_turn r (chess s);
          moveTime = rs_moveTime resp
      in (case rs_outcome resp of
            Threw message \<Rightarrow>
              let s1 = chargeClock cfg activeColor moveTime s
              in if flagged cfg activeColor s1 then Some (Return, flagOnTime r activeColor moveTime s1)
                 else if str_includes (toLowerCase message) ''empty move''
                 then Some (onEmptyMove cfg r ply activeColor s1)
                 else Some (onCallFailure cfg r activeColor message s1)
          | Returned rawMove \<Rightarrow>
              let s1 = chargeClock cfg activeColor moveTime s
              in if flagged cfg activeColor s1 then Some (Return, flagOnTime r activeColor moveTime s1)
                 else
                   let rawTrimmed = trim rawMove;
                       cleaned = toLowerCase rawTrimmed
                   in if cleaned = ''resign'' then Some (onResign cfg r ply activeColor moveTime s1)
                      else (case chess_move r (chess s1) rawTrimmed of
                              None \<Rightarrow> onIllegal cfg r ply activeColor moveTime rawTrimmed cleaned s1
                            | Some (moveResult, moved) \<Rightarrow>
                                Some (onLegal cfg r ply activeColor moveTime moveResult moved s1))))"

text \<open>The code after the loop: the ply ceiling was reached.\<close>

definition maxMoveEnd :: "config \<Rightarrow> 'p rules \<Rightarrow> 'p state \<Rightarrow> 'p state" where
  "maxMoveEnd cfg r s = endMatch cfg r Draw MaxMove s"

function ply_loop :: "config \<Rightarrow> 'p rules \<Rightarrow> agent \<Rightarrow> nat \<Rightarrow> 'p state \<Rightarrow> 'p state option" where
  "ply_loop cfg r ag ply s =
     (if ply < MAX_PLY
      then (case step cfg r ply (ag ply (request_for cfg r s)) s of
              None \<Rightarrow> None
            | Some (Return, s') \<Rightarrow> Some s'
            | Some (Continue, s') \<Rightarrow> ply_loop cfg r ag (ply + 1) s')
      else Some (maxMoveEnd cfg r s))"
  by pat_completeness auto
termination
  by (relation "measure (\<lambda>(cfg, r, ag, ply, s). MAX_PLY - ply)") auto

declare ply_loop.simps [simp del]

text \<open>
  \<^verbatim>\<open>start(controller)\<close>: the initial variables, the first status event and the loop.
  The result is the final state of the stream, or \<open>None\<close> when an exception escaped.
\<close>

definition initialState :: "config \<Rightarrow> 'p rules \<Rightarrow> 'p state option" where
  "initialState cfg r =
     (let fen0 = chess_fen r (chess_new r)
      in (case chess_load r fen0 of
            None \<Rightarrow> None
          | Some chess0 \<Rightarrow>
              Some \<lparr>fen = fen0, chess = chess0, fullmove = 1,
                    illegalCounts = \<lparr>white = 0, black = 0\<rparr>, moves = [],
                    lastIllegal = \<lparr>white = None, black = None\<rparr>,
                    lastIllegalMoves = \<lparr>white = None, black = None\<rparr>,
                    clocks = \<lparr>white = initialClockMs cfg, black = initialClockMs cfg\<rparr>,
                    out = [], closed = False\<rparr>))"

definition start :: "config \<Rightarrow> 'p rules \<Rightarrow> agent \<Rightarrow> 'p state option" where
  "start cfg r ag =
     (case initialState cfg r of
        None \<Rightarrow> None
      | Some s0 \<Rightarrow> ply_loop cfg r ag 0 (send s0 (Status MatchStarting None (clockSnapshot cfg s0) None)))"

text \<open>
  The state in which iteration \<open>n\<close> of the loop begins, when the loop gets that far:
  the first \<open>n\<close> iterations all went on to the next one.
\<close>

fun state_at_ply :: "config \<Rightarrow> 'p rules \<Rightarrow> agent \<Rightarrow> nat \<Rightarrow> 'p state option" where
  "state_at_ply cfg r ag 0 =
     (case initialState cfg r of
        None \<Rightarrow> None
      | Some s0 \<Rightarrow> Some (send s0 (Status MatchStarting None (clockSnapshot cfg s0) None)))"
| "state_at_ply cfg r ag (Suc n) =
     (case state_at_ply cfg r ag n of
        None \<Rightarrow> None
      | Some s \<Rightarrow>
          (case step cfg r n (ag n (request_for cfg r s)) s of
             Some (Continue, s') \<Rightarrow> Some s'
           | _ \<Rightarrow> None))"

fun is_end :: "event \<Rightarrow> bool" where
  "is_end (End res) = True"
| "is_end e = False"

text \<open>
  What happens in an iteration, read off the answer of the model-call step and the state
  in which the iteration begins: the clock falls, the call fails with the message of an
  empty response or with another error, the text is the resignation token, the rules
  library refuses the text, or it accepts it.
\<close>

datatype ply_kind = FlagFall | EmptyResponse | CallFailure | Resigned | IllegalAttempt | LegalMove

definition ply_kind_of :: "config \<Rightarrow> 'p rules \<Rightarrow> response \<Rightarrow> 'p state \<Rightarrow> ply_kind" where
  "ply_kind_of cfg r resp s =
     (if isBullet cfg \<and> cget (chess_turn r (chess s)) (clocks s) - rs_moveTime resp \<le> 0 then FlagFall
      else (case rs_outcome resp of
              Threw message \<Rightarrow>
                if str_includes (toLowerCase message) ''empty move'' then EmptyResponse else CallFailure
            | Returned rawMove \<Rightarrow>
                if toLowerCase (trim rawMove) = ''resign'' then Resigned
                else (case chess_move r (chess s) (trim rawMove) of
                        None \<Rightarrow> IllegalAttempt
                      | Some accepted \<Rightarrow> LegalMove)))"

text \<open>A status event that reports a strike carries the summary of the attempt.\<close>

fun is_strike :: "event \<Rightarrow> bool" where
  "is_strike (Status msg counts clk (Some summary)) = True"
| "is_strike e = False"

fun is_move :: "event \<Rightarrow> bool" where
  "is_move (Move mv) = True"
| "is_move e = False"

text \<open>The result a finished stream carries: that of its last event.\<close>

definition result_of :: "'p state \<Rightarrow> match_result option" where
  "result_of s = (case rev (out s) of End res # earlier \<Rightarrow> Some res | _ \<Rightarrow> None)"

section \<open>A small rules library\<close>

text \<open>
  An instance of the rules library on which the engine can be evaluated. A position is
  its FEN string with the moves played (SAN). The library knows the starting position and
  two opening moves, in SAN and in from-to notation, and refuses every other text; like
  the FEN validation of \<^verbatim>\<open>chess.js\<close> it refuses to load a position that lacks a king.
\<close>

record book_position =
  bp_fen :: string
  bp_history :: "string list"

definition start_fen :: string where
  "start_fen = ''rnbqkbnr/pppppppp/8/8/8/8/PPPPPPPP/RNBQKBNR w KQkq - 0 1''"

definition fen_e4 :: string where
  "fen_e4 = ''rnbqkbnr/pppppppp/8/8/4P3/8/PPPP1PPP/RNBQKBNR b KQkq - 0 1''"

definition fen_e4_e5 :: string where
  "fen_e4_e5 = ''rnbqkbnr/pppp1ppp/8/4p3/4P3/8/PPPP1PPP/RNBQKBNR w KQkq - 0 2''"

definition move_e4 :: move_result where
  "move_e4 = \<lparr>m_from = ''e2'', m_to = ''e4'', m_promotion = None, m_san = ''e4''\<rparr>"

definition move_e5 :: move_result where
  "move_e5 = \<lparr>m_from = ''e7'', m_to = ''e5'', m_promotion = None, m_san = ''e5''\<rparr>"

definition book :: "(string \<times> string \<times> move_result \<times> string) list" where
  "book = [(start_fen, ''e2e4'', move_e4, fen_e4), (start_fen, ''e4'', move_e4, fen_e4),
           (fen_e4, ''e7e5'', move_e5, fen_e4_e5), (fen_e4, ''e5'', move_e5, fen_e4_e5)]"

definition fen_placement :: "string \<Rightarrow> string" where
  "fen_placement f = (case split_on CHR '' '' f of [] \<Rightarrow> [] | pl # _ \<Rightarrow> pl)"

definition fen_cell :: "char \<Rightarrow> piece option list" where
  "fen_cell c =
     (if is_digit c then replicate (digit_val c) None
      else [Some (toLowerCase_char c, if c \<in> set ascii_upper then White else Black)])"

definition fen_board :: "string \<Rightarrow> board" where
  "fen_board f = map (\<lambda>row. concat (map fen_cell row)) (split_on CHR ''/'' (fen_placement f))"

definition fen_loadable :: "string \<Rightarrow> bool" where
  "fen_loadable f =
     (length (split_on CHR '' '' f) = 6 \<and> length (split_on CHR ''/'' (fen_placement f)) = 8
      \<and> CHR ''K'' \<in> set (fen_placement f) \<and> CHR ''k'' \<in> set (fen_placement f))"

definition book_turn :: "book_position \<Rightarrow> color" where
  "book_turn p = (if nth_opt (split_on CHR '' '' (bp_fen p)) 1 = Some ''b'' then Black else White)"

definition book_move :: "book_position \<Rightarrow> string \<Rightarrow> (move_result \<times> book_position) option" where
  "book_move p txt =
     (case find (\<lambda>(f, t, m, f'). f = bp_fen p \<and> t = txt) book of
        None \<Rightarrow> None
      | Some (f, t, m, f') \<Rightarrow> Some (m, \<lparr>bp_fen = f', bp_history = bp_history p @ [m_san m]\<rparr>))"

definition book_get :: "book_position \<Rightarrow> string \<Rightarrow> piece option" where
  "book_get p sq = square_at (fen_board (bp_fen p)) sq"

definition book_chess :: "book_position rules" where
  "book_chess =
     \<lparr>chess_new = \<lparr>bp_fen = start_fen, bp_history = []\<rparr>,
      chess_load = (\<lambda>f. if fen_loadable f then Some \<lparr>bp_fen = f, bp_history = []\<rparr> else None),
      chess_turn = book_turn,
      chess_fen = bp_fen,
      chess_move = book_move,
      chess_get = book_get,
      chess_moves = (\<lambda>p. map (\<lambda>(f, t, m, f'). m) (filter (\<lambda>(f, t, m, f'). f = bp_fen p \<and> length t = 4) book)),
      chess_board = (\<lambda>p. fen_board (bp_fen p)),
      chess_history = bp_history,
      chess_pgn = (\<lambda>p. join '' '' (bp_history p)),
      chess_isCheckmate = (\<lambda>p. False),
      chess_isStalemate = (\<lambda>p. False),
      chess_isThreefoldRepetition = (\<lambda>p. False),
      chess_isInsufficientMaterial = (\<lambda>p. False),
      chess_isDraw = (\<lambda>p. False)\<rparr>"

text \<open>Agents that give the same answer at every ply, or answer from a script.\<close>

definition constant_agent :: "fetch_outcome \<Rightarrow> rat \<Rightarrow> agent" where
  "constant_agent oc t = (\<lambda>ply rq. \<lparr>rs_outcome = oc, rs_moveTime = t\<rparr>)"

definition scripted_agent :: "response list \<Rightarrow> response \<Rightarrow> agent" where
  "scripted_agent script dflt = (\<lambda>ply rq. case nth_opt script ply of None \<Rightarrow> dflt | Some a \<Rightarrow> a)"

text \<open>
  An agent whose first two calls end, after 30 s and 29.8 s, with the error of an empty
  response (three attempts of up to 12 s each with their pauses), and who then resigns.
\<close>

definition slow_empty_agent :: agent where
  "slow_empty_agent =
     scripted_agent [\<lparr>rs_outcome = Threw ''Model returned an empty move'', rs_moveTime = 30000\<rparr>,
                     \<lparr>rs_outcome = Threw ''Model returned an empty move'', rs_moveTime = 29800\<rparr>]
                    \<lparr>rs_outcome = Returned ''resign'', rs_moveTime = 100\<rparr>"

text \<open>The state in which the first iteration begins on this library.\<close>

definition first_ply :: "config \<Rightarrow> book_position state" where
  "first_ply cfg =
     \<lparr>fen = start_fen, chess = \<lparr>bp_fen = start_fen, bp_history = []\<rparr>, fullmove = 1,
      illegalCounts = \<lparr>white = 0, black = 0\<rparr>, moves = [],
      lastIllegal = \<lparr>white = None, black = None\<rparr>,
      lastIllegalMoves = \<lparr>white = None, black = None\<rparr>,
      clocks = \<lparr>white = initialClockMs cfg, black = initialClockMs cfg\<rparr>,
      out = [Status MatchStarting None
               (if isBullet cfg then Some \<lparr>white = initialClockMs cfg, black = initialClockMs cfg\<rparr> else None)
               None],
      closed = False\<rparr>"

definition strict_config :: config where
  "strict_config = \<lparr>whiteModel = ''openai/gpt-4.1'', blackModel = ''anthropic/claude-3-5-sonnet'',
                     mode = Strict, clockMinutes = None, MOVE_TIMEOUT_MS = 12000\<rparr>"


definition bullet_config :: config where
  "bullet_config = strict_config\<lparr>mode := Bullet, clockMinutes := Some (Finite 1)\<rparr>"

section \<open>The move parser as the specification words it\<close>

text \<open>
  The specification of the move parser, written from its words: lowercase and strip all
  non-alphanumeric characters, strip a leading \<^verbatim>\<open>move\<close> label, reject the empty text
  and the resignation token, reject a length outside 4-5, validate both squares against
  "file letter a-h followed by rank digit 1-8", and keep a fifth character only when it
  is one of q, r, b, n.
\<close>

definition is_alnum :: "char \<Rightarrow> bool" where
  "is_alnum c = (c \<in> set ascii_lower \<or> c \<in> set ascii_digits)"

definition spec_cleaned :: "string \<Rightarrow> string" where
  "spec_cleaned raw =
     (let t = filter is_alnum (map toLowerCase_char raw)
      in if prefix ''move'' t then drop 4 t else t)"

definition spec_square :: "string \<Rightarrow> bool" where
  "spec_square sq =
     (length sq = 2
      \<and> sq ! 0 \<in> set ''abcdefgh'' \<and> sq ! 1 \<in> set ''12345678'')"

definition spec_parse :: "string \<Rightarrow> uci_move option" where
  "spec_parse raw =
     (let c = spec_cleaned raw; src = take 2 c; dst = take 2 (drop 2 c)
      in if c = [] \<or> c = ''resign'' \<or> length c < 4 \<or> 5 < length c
            \<or> \<not> spec_square src \<or> \<not> spec_square dst
         then None
         else Some \<lparr>from_sq = src, to_sq = dst,
                    promotion = (if length c = 5 \<and> c ! 4 \<in> {CHR ''q'', CHR ''r'', CHR ''b'', CHR ''n''}
                                 then Some (c ! 4) else None)\<rparr>)"

section \<open>The clock allotment as the specification words it\<close>

definition clamp :: "rat \<Rightarrow> rat \<Rightarrow> rat \<Rightarrow> rat" where
  "clamp x lo hi = (if x < lo then lo else if hi < x then hi else x)"

section \<open>Concrete matches\<close>

text \<open>States and agents of matches played on the small rules library.\<close>

text \<open>
  The state in which the third iteration begins when \<open>slow_empty_agent\<close> plays White
  in a one-minute bullet match.
\<close>

definition low_clock_state :: "book_position state" where
  "low_clock_state =
     \<lparr>fen = start_fen, chess = \<lparr>bp_fen = start_fen, bp_history = []\<rparr>, fullmove = 1,
      illegalCounts = \<lparr>white = 2, black = 0\<rparr>, moves = [],
      lastIllegal = \<lparr>white = Some (''(empty)'', ''Model returned an empty move''), black = None\<rparr>,
      lastIllegalMoves = \<lparr>white = Some \<lparr>il_by = White, il_move = ''(empty)'',
                                       il_reason = ''Model returned an empty move'', il_strikes = 2, il_ply = 1\<rparr>,
                          black = None\<rparr>,
      clocks = \<lparr>white = 200, black = 60000\<rparr>,
      out = [Status MatchStarting None (Some \<lparr>white = 60000, black = 60000\<rparr>) None,
             Status (EmptyMoveStrike White 1) (Some \<lparr>white = 1, black = 0\<rparr>)
               (Some \<lparr>white = 30000, black = 60000\<rparr>)
               (Some \<lparr>il_by = White, il_move = ''(empty)'', il_reason = ''Model returned an empty move'',
                      il_strikes = 1, il_ply = 0\<rparr>),
             Status (EmptyMoveStrike White 2) (Some \<lparr>white = 2, black = 0\<rparr>)
               (Some \<lparr>white = 200, black = 60000\<rparr>)
               (Some \<lparr>il_by = White, il_move = ''(empty)'', il_reason = ''Model returned an empty move'',
                      il_strikes = 2, il_ply = 1\<rparr>)],
      closed = False\<rparr>"

text \<open>The characters of a piece placement, the rank separator apart.\<close>

definition fen_chars :: string where
  "fen_chars = ''pnbrqkPNBRQK0123456789''"

text \<open>The board of the starting position.\<close>

definition start_board :: board where
  "start_board =
     [[Some (CHR ''r'', Black), Some (CHR ''n'', Black), Some (CHR ''b'', Black), Some (CHR ''q'', Black),
       Some (CHR ''k'', Black), Some (CHR ''b'', Black), Some (CHR ''n'', Black), Some (CHR ''r'', Black)],
      [Some (CHR ''p'', Black), Some (CHR ''p'', Black), Some (CHR ''p'', Black), Some (CHR ''p'', Black),
       Some (CHR ''p'', Black), Some (CHR ''p'', Black), Some (CHR ''p'', Black), Some (CHR ''p'', Black)],
      [None, None, None, None, None, None, None, None], [None, None, None, None, None, None, None, None],
      [None, None, None, None, None, None, None, None], [None, None, None, None, None, None, None, None],
      [Some (CHR ''p'', White), Some (CHR ''p'', White), Some (CHR ''p'', White), Some (CHR ''p'', White),
       Some (CHR ''p'', White), Some (CHR ''p'', White), Some (CHR ''p'', White), Some (CHR ''p'', White)],
      [Some (CHR ''r'', White), Some (CHR ''n'', White), Some (CHR ''b'', White), Some (CHR ''q'', White),
       Some (CHR ''k'', White), Some (CHR ''b'', White), Some (CHR ''n'', White), Some (CHR ''r'', White)]]"

section \<open>Observations of a match\<close>

text \<open>
  The wall-clock time the model-call step takes at ply \<open>n\<close> of a match (0 when the match
  is over before that ply begins), and a clock charged with a list of such times in turn:
  whether it falls to zero, and how many of the times it outlasts.
\<close>

definition answer_time :: "config \<Rightarrow> 'p rules \<Rightarrow> agent \<Rightarrow> nat \<Rightarrow> rat" where
  "answer_time cfg r ag n =
     (case state_at_ply cfg r ag n of
        None \<Rightarrow> 0
      | Some s \<Rightarrow> rs_moveTime (ag n (request_for cfg r s)))"

fun clock_falls :: "rat \<Rightarrow> rat list \<Rightarrow> bool" where
  "clock_falls clock [] = False"
| "clock_falls clock (t # ts) = (clock - t \<le> 0 \<or> clock_falls (clock - t) ts)"

fun answers_in_time :: "rat \<Rightarrow> rat list \<Rightarrow> nat" where
  "answers_in_time clock [] = 0"
| "answers_in_time clock (t # ts) = (if clock - t \<le> 0 then 0 else Suc (answers_in_time (clock - t) ts))"





section \<open>A rules library that lets a king be taken, and more scripts\<close>









section \<open>Theorems\<close>

subsection \<open>Characters and strings\<close>

lemmas string_eval =
  trim_def is_space_def toLowerCase_def toLowerCase_char_def toUpperCase_char_def
  ascii_upper_def ascii_lower_def ascii_digits_def is_digit_def digit_val_def

lemmas parse_eval =
  parseUciMove_def clean_move_text_def strip_non_alnum_def strip_move_label_def isSquare_def
  files_def Let_def

lemma nth_opt_nth: "nth_opt xs i = (if i < length xs then Some (xs ! i) else None)"
  by (induction xs i rule: nth_opt.induct) auto

lemma is_space_cases:
  "is_space c \<Longrightarrow> c = CHR 0x09 \<or> c = CHR 0x0A \<or> c = CHR 0x0B \<or> c = CHR 0x0C \<or> c = CHR 0x0D
     \<or> c = CHR '' '' \<or> c = CHR 0xA0"
  by (simp add: is_space_def)

lemma is_alnum_cases: "is_alnum c \<Longrightarrow> c \<in> set ''abcdefghijklmnopqrstuvwxyz0123456789''"
  by (simp add: is_alnum_def ascii_lower_def ascii_digits_def)

lemma space_not_alnum: "is_space c \<Longrightarrow> \<not> is_alnum (toLowerCase_char c)"
  by (drule is_space_cases)
     (elim disjE; simp add: is_alnum_def toLowerCase_char_def ascii_upper_def ascii_lower_def ascii_digits_def)

lemma alnum_lower_id: "is_alnum c \<Longrightarrow> toLowerCase_char c = c"
  by (drule is_alnum_cases)
     (simp, elim disjE; simp add: toLowerCase_char_def ascii_upper_def ascii_lower_def)

lemma alnum_not_space: "is_alnum c \<Longrightarrow> \<not> is_space c"
  by (drule is_alnum_cases) (simp, elim disjE; simp add: is_space_def)

lemma alnum_not_colon: "is_alnum c \<Longrightarrow> c \<noteq> CHR '':''"
  by (drule is_alnum_cases) (simp, elim disjE; simp)

lemma filter_dropWhile_irrelevant:
  "(\<And>x. Q x \<Longrightarrow> \<not> P x) \<Longrightarrow> filter P (dropWhile Q xs) = filter P xs"
  by (induction xs) auto

lemma filter_trim:
  "filter (\<lambda>c. is_alnum (toLowerCase_char c)) (trim s) = filter (\<lambda>c. is_alnum (toLowerCase_char c)) s"
proof -
  let ?P = "\<lambda>c. is_alnum (toLowerCase_char c)"
  have a: "\<And>xs. filter ?P (dropWhile is_space xs) = filter ?P xs"
    by (rule filter_dropWhile_irrelevant) (rule space_not_alnum)
  have "filter ?P (trim s) = rev (filter ?P (dropWhile is_space (rev (dropWhile is_space s))))"
    by (simp add: trim_def rev_filter)
  also have "\<dots> = rev (filter ?P (rev (dropWhile is_space s)))" by (simp only: a)
  also have "\<dots> = filter ?P (dropWhile is_space s)" by (simp add: rev_filter)
  also have "\<dots> = filter ?P s" by (rule a)
  finally show ?thesis .
qed

lemma trim_no_space:
  assumes "\<forall>c \<in> set s. \<not> is_space c"
  shows "trim s = s"
proof -
  have a: "\<And>xs. \<forall>c \<in> set xs. \<not> is_space c \<Longrightarrow> dropWhile is_space xs = xs"
    by (case_tac xs) auto
  show ?thesis using assms by (simp add: trim_def a)
qed

subsection \<open>The move parser\<close>

lemma strip_non_alnum_lower:
  "strip_non_alnum (toLowerCase (trim raw)) = filter is_alnum (map toLowerCase_char raw)"
proof -
  have "strip_non_alnum (toLowerCase (trim raw))
          = map toLowerCase_char (filter (\<lambda>c. is_alnum (toLowerCase_char c)) (trim raw))"
    by (simp add: strip_non_alnum_def toLowerCase_def filter_map o_def is_alnum_def)
  also have "\<dots> = map toLowerCase_char (filter (\<lambda>c. is_alnum (toLowerCase_char c)) raw)"
    by (simp only: filter_trim)
  also have "\<dots> = filter is_alnum (map toLowerCase_char raw)"
    by (simp add: filter_map o_def)
  finally show ?thesis .
qed

lemma strip_move_label_alnum:
  assumes "\<forall>c \<in> set t. is_alnum c"
  shows "strip_move_label t = (if prefix ''move'' t then drop 4 t else t)"
proof -
  have l: "toLowerCase (take 4 t) = take 4 t"
    unfolding toLowerCase_def
  proof (rule map_idI)
    fix c assume "c \<in> set (take 4 t)"
    then have "c \<in> set t" by (rule in_set_takeD)
    then show "toLowerCase_char c = c" using assms alnum_lower_id by blast
  qed
  have p: "(take 4 t = ''move'') = prefix ''move'' t"
  proof
    assume "take 4 t = ''move''"
    then have "t = ''move'' @ drop 4 t" by (metis append_take_drop_id)
    then show "prefix ''move'' t" by (metis prefixI)
  next
    assume "prefix ''move'' t"
    then obtain zs where "t = ''move'' @ zs" by (auto simp: prefix_def)
    then show "take 4 t = ''move''" by simp
  qed
  have d: "\<And>c rest. drop 4 t = c # rest \<Longrightarrow> c \<noteq> CHR '':''"
  proof -
    fix c rest assume "drop 4 t = c # rest"
    then have "c \<in> set (drop 4 t)" by simp
    then have "c \<in> set t" by (rule in_set_dropD)
    then show "c \<noteq> CHR '':''" using assms alnum_not_colon by blast
  qed
  show ?thesis
    unfolding strip_move_label_def l p
    by (auto split: list.splits dest: d)
qed

lemma clean_move_text_spec: "clean_move_text raw = spec_cleaned raw"
proof -
  let ?t = "filter is_alnum (map toLowerCase_char raw)"
  have al: "\<forall>c \<in> set ?t. is_alnum c" by simp
  have st: "strip_move_label ?t = (if prefix ''move'' ?t then drop 4 ?t else ?t)"
    by (rule strip_move_label_alnum[OF al])
  have "\<forall>c \<in> set (strip_move_label ?t). \<not> is_space c"
    unfolding st using alnum_not_space by (auto dest: in_set_dropD)
  then have "trim (strip_move_label ?t) = strip_move_label ?t" by (rule trim_no_space)
  then show ?thesis
    by (simp add: clean_move_text_def strip_non_alnum_lower st spec_cleaned_def Let_def)
qed

lemma isSquare_spec: "isSquare sq = spec_square sq"
proof (cases sq)
  case Nil
  then show ?thesis by (simp add: isSquare_def spec_square_def)
next
  case (Cons f r)
  show ?thesis
  proof (cases r)
    case Nil
    with Cons show ?thesis by (simp add: isSquare_def spec_square_def)
  next
    case (Cons d t)
    with \<open>sq = f # r\<close> show ?thesis
      by (cases t) (auto simp: isSquare_def spec_square_def files_def)
  qed
qed

lemma includes_qrbn: "str_includes ''qrbn'' [p] = (p \<in> {CHR ''q'', CHR ''r'', CHR ''b'', CHR ''n''})"
  by auto

text \<open>
  Claim C7. For every raw text the move parser returns what the specification describes:
  it lowercases the text, strips every non-alphanumeric character and a leading
  \<^verbatim>\<open>move\<close> label; it returns null exactly when the cleaned text is empty, is the
  resignation token, has a length outside 4-5, or one of its two squares is not a file
  a-h followed by a rank 1-8; a fifth character is the promotion piece when it is one of
  q, r, b, n and is dropped otherwise, the move being returned all the same.
\<close>

theorem parseUciMove_refines_spec: "parseUciMove raw = spec_parse raw"
proof (cases "length (spec_cleaned raw) = 4 \<or> length (spec_cleaned raw) = 5")
  case False
  then show ?thesis
    by (auto simp: parseUciMove_def spec_parse_def clean_move_text_spec Let_def)
next
  case True
  then have n: "nth_opt (spec_cleaned raw) 4
                  = (if length (spec_cleaned raw) = 5 then Some (spec_cleaned raw ! 4) else None)"
    by (auto simp: nth_opt_nth)
  show ?thesis
    unfolding parseUciMove_def spec_parse_def clean_move_text_spec Let_def n isSquare_spec includes_qrbn
    using True by auto
qed

theorem parseUciMove_refines_spec_witness:
  "spec_parse ''Move: A7-A8=Q'' = Some \<lparr>from_sq = ''a7'', to_sq = ''a8'', promotion = Some CHR ''q''\<rparr>
   \<and> spec_parse ''e2e4x'' = Some \<lparr>from_sq = ''e2'', to_sq = ''e4'', promotion = None\<rparr>
   \<and> spec_parse ''zzzz'' = None \<and> spec_parse ''resign'' = None"
  using parseUciMove_refines_spec [of "''Move: A7-A8=Q''"] parseUciMove_refines_spec [of "''e2e4x''"]
        parseUciMove_refines_spec [of "''zzzz''"] parseUciMove_refines_spec [of "''resign''"]
  by (simp add: parse_eval string_eval nth_opt_nth)


subsection \<open>The small rules library\<close>

lemma book_loads_start: "chess_load book_chess start_fen = Some \<lparr>bp_fen = start_fen, bp_history = []\<rparr>"
  by (simp add: book_chess_def fen_loadable_def fen_placement_def start_fen_def)

lemma book_initial:
  "initialState cfg book_chess =
     Some \<lparr>fen = start_fen, chess = \<lparr>bp_fen = start_fen, bp_history = []\<rparr>, fullmove = 1,
           illegalCounts = \<lparr>white = 0, black = 0\<rparr>, moves = [],
           lastIllegal = \<lparr>white = None, black = None\<rparr>,
           lastIllegalMoves = \<lparr>white = None, black = None\<rparr>,
           clocks = \<lparr>white = initialClockMs cfg, black = initialClockMs cfg\<rparr>,
           out = [], closed = False\<rparr>"
proof -
  have "chess_fen book_chess (chess_new book_chess) = start_fen" by (simp add: book_chess_def)
  then show ?thesis by (simp add: initialState_def book_loads_start Let_def)
qed

lemma book_first_ply: "state_at_ply cfg book_chess ag 0 = Some (first_ply cfg)"
  by (simp add: book_initial first_ply_def send_def clockSnapshot_def)

lemma book_turn_start: "chess_turn book_chess \<lparr>bp_fen = start_fen, bp_history = h\<rparr> = White"
  by (simp add: book_chess_def book_turn_def start_fen_def nth_opt_nth)

subsection \<open>The loop body\<close>

lemmas stream_defs = send_def close_def endMatch_def buildResult_def clockSnapshot_def

lemma cget_cset: "cget c (cset c' v m) = (if c = c' then v else cget c m)"
  by (cases c; cases c') auto

lemma cset_cset: "cset c v (cset c w m) = cset c v m"
  by (cases c) auto

lemma chargeClock_fields:
  "fen (chargeClock cfg a t s) = fen s" "chess (chargeClock cfg a t s) = chess s"
  "fullmove (chargeClock cfg a t s) = fullmove s" "illegalCounts (chargeClock cfg a t s) = illegalCounts s"
  "moves (chargeClock cfg a t s) = moves s" "lastIllegal (chargeClock cfg a t s) = lastIllegal s"
  "lastIllegalMoves (chargeClock cfg a t s) = lastIllegalMoves s"
  "out (chargeClock cfg a t s) = out s" "closed (chargeClock cfg a t s) = closed s"
  "clocks (chargeClock cfg a t s) = (if isBullet cfg then cset a (max 0 (cget a (clocks s) - t)) (clocks s) else clocks s)"
  by (simp_all add: chargeClock_def)

lemma flagged_charge:
  "flagged cfg a (chargeClock cfg a t s) = (isBullet cfg \<and> cget a (clocks s) - t \<le> 0)"
  by (auto simp: flagged_def chargeClock_def cget_cset)

text \<open>step, by the kind of the ply\<close>

lemma step_by_kind:
  "step cfg r ply resp s =
     (let a = chess_turn r (chess s); t = rs_moveTime resp; s1 = chargeClock cfg a t s
      in case ply_kind_of cfg r resp s of
           FlagFall \<Rightarrow> Some (Return, flagOnTime r a t s1)
         | EmptyResponse \<Rightarrow> Some (onEmptyMove cfg r ply a s1)
         | CallFailure \<Rightarrow> Some (onCallFailure cfg r a (case rs_outcome resp of Threw m \<Rightarrow> m | Returned m \<Rightarrow> m) s1)
         | Resigned \<Rightarrow> Some (onResign cfg r ply a t s1)
         | IllegalAttempt \<Rightarrow>
             (case rs_outcome resp of Returned raw \<Rightarrow> onIllegal cfg r ply a t (trim raw) (toLowerCase (trim raw)) s1 | Threw m \<Rightarrow> None)
         | LegalMove \<Rightarrow>
             (case rs_outcome resp of
                Returned raw \<Rightarrow> (case chess_move r (chess s) (trim raw) of Some (m, p') \<Rightarrow> Some (onLegal cfg r ply a t m p' s1) | None \<Rightarrow> None)
              | Threw m \<Rightarrow> None))"
  by (cases "rs_outcome resp")
     (auto simp: step_def ply_kind_of_def Let_def flagged_charge chargeClock_fields split: option.splits)

lemma onEmptyMove_fields:
  assumes "onEmptyMove cfg r ply a s = (fl, s')"
  shows "clocks s' = clocks s" "moves s' = moves s" "chess s' = chess s" "fen s' = fen s"
    "illegalCounts s' = cset a (cget a (illegalCounts s) + 1) (illegalCounts s)"
  using assms by (auto simp: onEmptyMove_def noteEmptyMove_def Let_def stream_defs addStrike_def split: if_splits)

lemma onCallFailure_fields:
  assumes "onCallFailure cfg r a msg s = (fl, s')"
  shows "clocks s' = clocks s" "moves s' = moves s" "chess s' = chess s" "fen s' = fen s"
    "illegalCounts s' = illegalCounts s" "fl = Return"
  using assms by (auto simp: onCallFailure_def Let_def stream_defs split: if_splits)

lemma onResign_fields:
  assumes "onResign cfg r ply a t s = (fl, s')"
  shows "clocks s' = clocks s" "moves s' = moves s" "chess s' = chess s" "fen s' = fen s"
    "illegalCounts s' = illegalCounts s" "fl = Return"
  using assms by (auto simp: onResign_def Let_def stream_defs split: if_splits)

lemma flagOnTime_fields:
  "clocks (flagOnTime r a t s) = clocks s" "moves (flagOnTime r a t s) = moves s"
  "chess (flagOnTime r a t s) = chess s" "fen (flagOnTime r a t s) = fen s"
  "illegalCounts (flagOnTime r a t s) = illegalCounts s"
  by (simp_all add: flagOnTime_def Let_def stream_defs)

lemma onLegal_fields:
  assumes "onLegal cfg r ply a t m p' s = (fl, s')"
  shows "clocks s' = clocks s" "chess s' = p'" "fen s' = chess_fen r p'"
    "moves s' = moves s @ [m_from m @ m_to m @ promotion_text (m_promotion m)]"
    "illegalCounts s' = cset a 0 (illegalCounts s)"
    "lastIllegal s' = cset a None (lastIllegal s)"
  using assms by (auto simp: onLegal_def Let_def stream_defs split: if_splits)

lemma chaosBlock_fields:
  assumes "chaosBlock cfg r ply a t cleaned s = Some (fl, s')"
  shows "clocks s' = clocks s" "illegalCounts s' = illegalCounts s" "lastIllegal s' = lastIllegal s"
  using assms
  by (auto simp: chaosBlock_def Let_def stream_defs split: if_splits option.splits)

lemma noteIllegal_fields:
  "clocks (noteIllegal cfg r ply a raw cleaned s) = clocks s"
  "moves (noteIllegal cfg r ply a raw cleaned s) = moves s"
  "chess (noteIllegal cfg r ply a raw cleaned s) = chess s"
  "fen (noteIllegal cfg r ply a raw cleaned s) = fen s"
  "fullmove (noteIllegal cfg r ply a raw cleaned s) = fullmove s"
  "closed (noteIllegal cfg r ply a raw cleaned s) = closed s"
  "illegalCounts (noteIllegal cfg r ply a raw cleaned s) = cset a (cget a (illegalCounts s) + 1) (illegalCounts s)"
  by (simp_all add: noteIllegal_def Let_def stream_defs addStrike_def)

lemma onIllegal_fields:
  assumes "onIllegal cfg r ply a t raw cleaned s = Some (fl, s')"
  shows "clocks s' = clocks s"
    "illegalCounts s' = cset a (cget a (illegalCounts s) + 1) (illegalCounts s)"
proof -
  obtain fl5 s5 where c: "chaosBlock cfg r ply a t cleaned (noteIllegal cfg r ply a raw cleaned s) = Some (fl5, s5)"
    using assms by (auto simp: onIllegal_def split: option.splits)
  have s': "clocks s' = clocks s5" "illegalCounts s' = illegalCounts s5"
    using assms c by (auto simp: onIllegal_def stream_defs split: flow.splits if_splits)
  show "clocks s' = clocks s"
    using chaosBlock_fields(1)[OF c] s' by (simp add: noteIllegal_fields)
  show "illegalCounts s' = cset a (cget a (illegalCounts s) + 1) (illegalCounts s)"
    using chaosBlock_fields(2)[OF c] s' by (simp add: noteIllegal_fields)
qed



lemma flagOnTime_out:
  "out (flagOnTime r a t s) =
     out s @ [Status (FlaggedOnTime a t) (Some (illegalCounts s)) (Some (clocks s)) None,
              End (buildResult r (Winner (opponent a)) Timeout (moves s) (illegalCounts s) (chess s)
                     (Some (clocks s)) None)]"
  "closed (flagOnTime r a t s)"
  by (simp_all add: flagOnTime_def Let_def send_def close_def)

lemma chaosBlock_not_chaos: "mode cfg \<noteq> Chaos \<Longrightarrow> chaosBlock cfg r ply a t cleaned s = Some (Continue, s)"
  by (simp add: chaosBlock_def)

lemma onIllegal_not_chaos:
  "mode cfg \<noteq> Chaos \<Longrightarrow>
   onIllegal cfg r ply a t raw cleaned s =
     (let s4 = noteIllegal cfg r ply a raw cleaned s
      in if strikeOut cfg a s4 then Some (Return, endMatch cfg r (Winner (opponent a)) Illegal s4)
         else Some (Continue, s4))"
  by (simp add: onIllegal_def chaosBlock_not_chaos Let_def)

lemma step_total_not_chaos:
  assumes "mode cfg \<noteq> Chaos"
  shows "\<exists>fl s'. step cfg r ply resp s = Some (fl, s')"
proof (cases "ply_kind_of cfg r resp s")
  case IllegalAttempt
  then obtain raw where "rs_outcome resp = Returned raw"
    by (cases "rs_outcome resp") (auto simp: ply_kind_of_def split: if_splits)
  with IllegalAttempt assms show ?thesis
    by (simp add: step_by_kind onIllegal_not_chaos Let_def)
next
  case LegalMove
  then obtain raw m p' where "rs_outcome resp = Returned raw" "chess_move r (chess s) (trim raw) = Some (m, p')"
    by (cases "rs_outcome resp") (auto simp: ply_kind_of_def split: if_splits option.splits)
  with LegalMove show ?thesis
    by (cases "onLegal cfg r ply (chess_turn r (chess s)) (rs_moveTime resp) m p'
                 (chargeClock cfg (chess_turn r (chess s)) (rs_moveTime resp) s)")
       (simp add: step_by_kind Let_def)
next
  case EmptyResponse
  then show ?thesis
    by (cases "onEmptyMove cfg r ply (chess_turn r (chess s))
                 (chargeClock cfg (chess_turn r (chess s)) (rs_moveTime resp) s)")
       (simp add: step_by_kind Let_def)
next
  case CallFailure
  then show ?thesis
    by (simp add: step_by_kind Let_def onCallFailure_def)
next
  case Resigned
  then show ?thesis
    by (simp add: step_by_kind Let_def onResign_def)
next
  case FlagFall
  then show ?thesis
    by (simp add: step_by_kind Let_def)
qed

lemma step_clocks:
  assumes "step cfg r ply resp s = Some (fl, s')"
  shows "clocks s' = clocks (chargeClock cfg (chess_turn r (chess s)) (rs_moveTime resp) s)"
proof (cases "ply_kind_of cfg r resp s")
  case IllegalAttempt
  with assms show ?thesis
    by (cases "rs_outcome resp") (auto simp: step_by_kind Let_def dest: onIllegal_fields(1))
next
  case LegalMove
  with assms show ?thesis
    by (cases "rs_outcome resp")
       (auto simp: step_by_kind Let_def split: option.splits dest: onLegal_fields(1) sym)
next
  case EmptyResponse
  with assms show ?thesis
    by (auto simp: step_by_kind Let_def dest: onEmptyMove_fields(1) sym)
next
  case CallFailure
  with assms show ?thesis
    by (auto simp: step_by_kind Let_def dest: onCallFailure_fields(1) sym)
next
  case Resigned
  with assms show ?thesis
    by (auto simp: step_by_kind Let_def dest: onResign_fields(1) sym)
next
  case FlagFall
  with assms show ?thesis
    by (auto simp: step_by_kind Let_def flagOnTime_fields)
qed

subsection \<open>The clocks\<close>

text \<open>
  Claim C10. In the timed ("bullet") mode the initial clock of each side, in
  milliseconds, is clamp(clockMinutes, 1, 3) * 60000: more than 3 minutes become 3, less
  than 1 minute becomes 1, and a missing or non-finite clockMinutes counts as 3 minutes;
  in the other modes both clocks start at 0.
\<close>

theorem initial_clock_clamped:
  "initialClockMs cfg =
     (if mode cfg = Bullet
      then (case clockMinutes cfg of Some (Finite q) \<Rightarrow> clamp q 1 3 * 60000 | _ \<Rightarrow> 3 * 60000)
      else 0)
   \<and> (\<forall>s0. initialState cfg r = Some s0 \<longrightarrow>
          clocks s0 = \<lparr>white = initialClockMs cfg, black = initialClockMs cfg\<rparr>)"
  by (auto simp: initialClockMs_def isBullet_def clamp_def initialState_def Let_def
           split: option.splits js_number.splits)

theorem initial_clock_clamped_witness:
  "initialClockMs (bullet_config\<lparr>clockMinutes := Some (Finite 5)\<rparr>) = 180000
   \<and> initialClockMs (bullet_config\<lparr>clockMinutes := Some (Finite (1/2))\<rparr>) = 60000
   \<and> initialClockMs (bullet_config\<lparr>clockMinutes := Some (Finite 2)\<rparr>) = 120000
   \<and> initialClockMs (bullet_config\<lparr>clockMinutes := Some NaN\<rparr>) = 180000
   \<and> initialClockMs (bullet_config\<lparr>clockMinutes := None\<rparr>) = 180000
   \<and> initialClockMs strict_config = 0
   \<and> map_option clocks (initialState bullet_config book_chess) = Some \<lparr>white = 60000, black = 60000\<rparr>"
  using initial_clock_clamped [of "bullet_config\<lparr>clockMinutes := Some (Finite 5)\<rparr>" book_chess]
        initial_clock_clamped [of "bullet_config\<lparr>clockMinutes := Some (Finite (1/2))\<rparr>" book_chess]
        initial_clock_clamped [of "bullet_config\<lparr>clockMinutes := Some (Finite 2)\<rparr>" book_chess]
        initial_clock_clamped [of "bullet_config\<lparr>clockMinutes := Some NaN\<rparr>" book_chess]
        initial_clock_clamped [of "bullet_config\<lparr>clockMinutes := None\<rparr>" book_chess]
        initial_clock_clamped [of strict_config book_chess]
        initial_clock_clamped [of bullet_config book_chess]
  by (simp add: clamp_def bullet_config_def strict_config_def book_initial)

text \<open>
  Claim C3. In the timed variant, in every ply, the time the think step took is deducted
  from the clock of the side to move, floored at zero. If the clock thereby reaches zero
  or below, the match ends at once, won by the opponent with reason "timeout", whatever
  the model-call step returned or threw: the text is not examined, no move is made and no
  strike counted, and the clock reported for the loser is 0.
\<close>

theorem clock_charged_before_text_is_read:
  assumes "mode cfg = Bullet"
    and "a = chess_turn r (chess s)"
    and "left = max 0 (cget a (clocks s) - rs_moveTime resp)"
  shows "0 \<le> left \<and>
    (\<exists>fl s'. step cfg r ply resp s = Some (fl, s') \<and> clocks s' = cset a left (clocks s)
       \<and> (cget a (clocks s) - rs_moveTime resp \<le> 0 \<longrightarrow>
            fl = Return \<and> closed s' \<and> cget a (clocks s') = 0
            \<and> (\<exists>res. out s' = out s @ [Status (FlaggedOnTime a (rs_moveTime resp)) (Some (illegalCounts s))
                                           (Some (clocks s')) None, End res]
                  \<and> res_winner res = Winner (opponent a) \<and> res_reason res = Timeout
                  \<and> res_clocks res = Some (clocks s') \<and> res_moves res = moves s
                  \<and> res_illegalCounts res = illegalCounts s)))"
proof -
  have b: "isBullet cfg" using assms(1) by (simp add: isBullet_def)
  from assms(1) have "mode cfg \<noteq> Chaos" by simp
  then obtain fl s' where st: "step cfg r ply resp s = Some (fl, s')"
    using step_total_not_chaos by blast
  have ck: "clocks s' = cset a left (clocks s)"
    using step_clocks[OF st] b assms(2,3) by (simp add: chargeClock_fields)
  have fall: "fl = Return \<and> closed s' \<and> cget a (clocks s') = 0
            \<and> (\<exists>res. out s' = out s @ [Status (FlaggedOnTime a (rs_moveTime resp)) (Some (illegalCounts s))
                                           (Some (clocks s')) None, End res]
                  \<and> res_winner res = Winner (opponent a) \<and> res_reason res = Timeout
                  \<and> res_clocks res = Some (clocks s') \<and> res_moves res = moves s
                  \<and> res_illegalCounts res = illegalCounts s)"
    if le: "cget a (clocks s) - rs_moveTime resp \<le> 0"
  proof -
    have k: "ply_kind_of cfg r resp s = FlagFall"
      using le b assms(2) by (simp add: ply_kind_of_def)
    have s': "s' = flagOnTime r a (rs_moveTime resp) (chargeClock cfg a (rs_moveTime resp) s)" and "fl = Return"
      using st k assms(2) by (auto simp: step_by_kind Let_def)
    have z: "left = 0" using le assms(3) by simp
    show ?thesis
      using \<open>fl = Return\<close> ck z
      by (simp add: s' flagOnTime_out flagOnTime_fields chargeClock_fields b buildResult_def cget_cset)
  qed
  show ?thesis
    using st ck fall assms(3) by auto
qed


theorem clock_charged_before_text_is_read_witness:
  "\<exists>fl s'. step bullet_config book_chess 0 \<lparr>rs_outcome = Returned ''e2e4'', rs_moveTime = 61000\<rparr>
               (first_ply bullet_config) = Some (fl, s')
     \<and> clocks s' = \<lparr>white = 0, black = 60000\<rparr> \<and> fl = Return \<and> closed s'
     \<and> (\<exists>res. out s' = out (first_ply bullet_config)
                     @ [Status (FlaggedOnTime White 61000) (Some \<lparr>white = 0, black = 0\<rparr>)
                          (Some \<lparr>white = 0, black = 60000\<rparr>) None, End res]
            \<and> res_winner res = Winner Black \<and> res_reason res = Timeout \<and> res_moves res = [])"
proof -
  have h1: "mode bullet_config = Bullet" by (simp add: bullet_config_def)
  have h2: "White = chess_turn book_chess (chess (first_ply bullet_config))"
    by (simp add: first_ply_def book_turn_start)
  have h3: "(0::rat) = max 0 (cget White (clocks (first_ply bullet_config))
                                - rs_moveTime \<lparr>rs_outcome = Returned ''e2e4'', rs_moveTime = 61000\<rparr>)"
    by (simp add: first_ply_def initialClockMs_def isBullet_def bullet_config_def)
  from clock_charged_before_text_is_read [OF h1 h2 h3, of 0]
  show ?thesis
    by (auto simp: first_ply_def initialClockMs_def isBullet_def bullet_config_def)
qed

subsection \<open>Strikes\<close>

lemma step_cases [consumes 1, case_names FlagFall EmptyResponse CallFailure Resigned IllegalAttempt LegalMove]:
  assumes st: "step cfg r ply resp s = Some (fl, s')"
  obtains
    (FlagFall) "ply_kind_of cfg r resp s = FlagFall" "fl = Return"
      "s' = flagOnTime r (chess_turn r (chess s)) (rs_moveTime resp)
              (chargeClock cfg (chess_turn r (chess s)) (rs_moveTime resp) s)"
  | (EmptyResponse) "ply_kind_of cfg r resp s = EmptyResponse"
      "onEmptyMove cfg r ply (chess_turn r (chess s))
         (chargeClock cfg (chess_turn r (chess s)) (rs_moveTime resp) s) = (fl, s')"
  | (CallFailure) msg where "ply_kind_of cfg r resp s = CallFailure"
      "onCallFailure cfg r (chess_turn r (chess s)) msg
         (chargeClock cfg (chess_turn r (chess s)) (rs_moveTime resp) s) = (fl, s')"
  | (Resigned) "ply_kind_of cfg r resp s = Resigned"
      "onResign cfg r ply (chess_turn r (chess s)) (rs_moveTime resp)
         (chargeClock cfg (chess_turn r (chess s)) (rs_moveTime resp) s) = (fl, s')"
  | (IllegalAttempt) raw where "ply_kind_of cfg r resp s = IllegalAttempt"
      "rs_outcome resp = Returned raw" "chess_move r (chess s) (trim raw) = None"
      "onIllegal cfg r ply (chess_turn r (chess s)) (rs_moveTime resp) (trim raw) (toLowerCase (trim raw))
         (chargeClock cfg (chess_turn r (chess s)) (rs_moveTime resp) s) = Some (fl, s')"
  | (LegalMove) raw m p' where "ply_kind_of cfg r resp s = LegalMove"
      "rs_outcome resp = Returned raw" "chess_move r (chess s) (trim raw) = Some (m, p')"
      "onLegal cfg r ply (chess_turn r (chess s)) (rs_moveTime resp) m p'
         (chargeClock cfg (chess_turn r (chess s)) (rs_moveTime resp) s) = (fl, s')"
proof (cases "ply_kind_of cfg r resp s")
  case k: FlagFall
  from st k have "fl = Return"
      "s' = flagOnTime r (chess_turn r (chess s)) (rs_moveTime resp)
              (chargeClock cfg (chess_turn r (chess s)) (rs_moveTime resp) s)"
    by (simp_all add: step_by_kind Let_def)
  with k show ?thesis by (rule FlagFall)
next
  case k: EmptyResponse
  from st k have "onEmptyMove cfg r ply (chess_turn r (chess s))
         (chargeClock cfg (chess_turn r (chess s)) (rs_moveTime resp) s) = (fl, s')"
    by (simp add: step_by_kind Let_def)
  with k show ?thesis by (rule EmptyResponse)
next
  case k: CallFailure
  from st k have "onCallFailure cfg r (chess_turn r (chess s))
         (case rs_outcome resp of Threw m \<Rightarrow> m | Returned m \<Rightarrow> m)
         (chargeClock cfg (chess_turn r (chess s)) (rs_moveTime resp) s) = (fl, s')"
    by (simp add: step_by_kind Let_def)
  with k show ?thesis by (rule CallFailure)
next
  case k: Resigned
  from st k have "onResign cfg r ply (chess_turn r (chess s)) (rs_moveTime resp)
         (chargeClock cfg (chess_turn r (chess s)) (rs_moveTime resp) s) = (fl, s')"
    by (simp add: step_by_kind Let_def)
  with k show ?thesis by (rule Resigned)
next
  case k: IllegalAttempt
  then obtain raw where raw: "rs_outcome resp = Returned raw"
    by (cases "rs_outcome resp") (simp_all add: ply_kind_of_def split: if_splits)
  from k raw have rej: "chess_move r (chess s) (trim raw) = None"
    by (simp add: ply_kind_of_def split: if_splits option.splits)
  from st k raw have "onIllegal cfg r ply (chess_turn r (chess s)) (rs_moveTime resp) (trim raw) (toLowerCase (trim raw))
         (chargeClock cfg (chess_turn r (chess s)) (rs_moveTime resp) s) = Some (fl, s')"
    by (simp add: step_by_kind Let_def)
  with k raw rej show ?thesis by (rule IllegalAttempt)
next
  case k: LegalMove
  then obtain raw where raw: "rs_outcome resp = Returned raw"
    by (cases "rs_outcome resp") (simp_all add: ply_kind_of_def split: if_splits)
  from k raw obtain m p' where acc: "chess_move r (chess s) (trim raw) = Some (m, p')"
    by (cases "chess_move r (chess s) (trim raw)") (auto simp: ply_kind_of_def split: if_splits)
  from st k raw acc have "onLegal cfg r ply (chess_turn r (chess s)) (rs_moveTime resp) m p'
         (chargeClock cfg (chess_turn r (chess s)) (rs_moveTime resp) s) = (fl, s')"
    by (simp add: step_by_kind Let_def)
  with k raw acc show ?thesis by (rule LegalMove)
qed

lemma step_Continue_kind:
  assumes "step cfg r ply resp s = Some (Continue, s')"
  shows "ply_kind_of cfg r resp s = EmptyResponse \<or> ply_kind_of cfg r resp s = IllegalAttempt
           \<or> ply_kind_of cfg r resp s = LegalMove"
  using assms
  by (cases rule: step_cases) (simp_all add: onCallFailure_def onResign_def Let_def)

lemma step_counts:
  assumes "step cfg r ply resp s = Some (fl, s')"
  shows "illegalCounts s' =
     (case ply_kind_of cfg r resp s of
        LegalMove \<Rightarrow> cset (chess_turn r (chess s)) 0 (illegalCounts s)
      | IllegalAttempt \<Rightarrow> cset (chess_turn r (chess s)) (cget (chess_turn r (chess s)) (illegalCounts s) + 1) (illegalCounts s)
      | EmptyResponse \<Rightarrow> cset (chess_turn r (chess s)) (cget (chess_turn r (chess s)) (illegalCounts s) + 1) (illegalCounts s)
      | _ \<Rightarrow> illegalCounts s)"
  using assms
proof (cases rule: step_cases)
  case FlagFall
  then show ?thesis by (simp add: flagOnTime_fields chargeClock_fields)
next
  case EmptyResponse
  then show ?thesis using onEmptyMove_fields(5)[OF EmptyResponse(2)] by (simp add: chargeClock_fields)
next
  case (CallFailure msg)
  then show ?thesis using onCallFailure_fields(5)[OF CallFailure(2)] by (simp add: chargeClock_fields)
next
  case Resigned
  then show ?thesis using onResign_fields(5)[OF Resigned(2)] by (simp add: chargeClock_fields)
next
  case (IllegalAttempt raw)
  then show ?thesis using onIllegal_fields(2)[OF IllegalAttempt(4)] by (simp add: chargeClock_fields)
next
  case (LegalMove raw m p')
  then show ?thesis using onLegal_fields(5)[OF LegalMove(4)] by (simp add: chargeClock_fields)
qed

lemma step_legal_lastIllegal:
  assumes "step cfg r ply resp s = Some (fl, s')" "ply_kind_of cfg r resp s = LegalMove"
  shows "cget (chess_turn r (chess s)) (lastIllegal s') = None"
  using assms
proof (cases rule: step_cases)
  case (LegalMove raw m p')
  then show ?thesis using onLegal_fields(6)[OF LegalMove(4)] by (simp add: cget_cset)
qed simp_all

text \<open>
  Claim C6. In every ply the strike counter of the side to move is reset to 0 when the
  rules library accepts its move, and its last-illegal memory is cleared with it; it grows
  by exactly 1 when the library refuses the text or the call ends with an empty response;
  in every other ply it is unchanged. The counter of the other colour never changes in
  the ply, so between two resets a counter never decreases.
\<close>

theorem strike_counter_reset_and_increment:
  assumes "step cfg r ply resp s = Some (fl, s')"
    and "a = chess_turn r (chess s)"
  shows "(ply_kind_of cfg r resp s = LegalMove \<longrightarrow>
            illegalCounts s' = cset a 0 (illegalCounts s) \<and> cget a (lastIllegal s') = None)
       \<and> (ply_kind_of cfg r resp s = IllegalAttempt \<or> ply_kind_of cfg r resp s = EmptyResponse \<longrightarrow>
            illegalCounts s' = cset a (cget a (illegalCounts s) + 1) (illegalCounts s))
       \<and> (ply_kind_of cfg r resp s = FlagFall \<or> ply_kind_of cfg r resp s = CallFailure
             \<or> ply_kind_of cfg r resp s = Resigned \<longrightarrow> illegalCounts s' = illegalCounts s)
       \<and> cget (opponent a) (illegalCounts s') = cget (opponent a) (illegalCounts s)
       \<and> (ply_kind_of cfg r resp s \<noteq> LegalMove \<longrightarrow>
            cget a (illegalCounts s) \<le> cget a (illegalCounts s'))"
proof -
  have o: "opponent a \<noteq> a" by (cases a) auto
  show ?thesis
    using step_counts[OF assms(1)] step_legal_lastIllegal[OF assms(1)] o
    unfolding assms(2)[symmetric]
    by (cases "ply_kind_of cfg r resp s") (auto simp: cget_cset)
qed

lemma book_move_e2e4:
  "chess_move book_chess \<lparr>bp_fen = start_fen, bp_history = h\<rparr> ''e2e4''
     = Some (move_e4, \<lparr>bp_fen = fen_e4, bp_history = h @ [''e4'']\<rparr>)"
  by (simp add: book_chess_def book_move_def book_def start_fen_def fen_e4_def move_e4_def)

lemma book_move_zzzz: "chess_move book_chess p ''zzzz'' = None"
  by (simp add: book_chess_def book_move_def book_def)

lemma text_e2e4: "trim ''e2e4'' = ''e2e4''" "toLowerCase ''e2e4'' = ''e2e4''"
  by (simp_all add: string_eval)

lemma text_zzzz: "trim ''zzzz'' = ''zzzz''" "toLowerCase ''zzzz'' = ''zzzz''"
  by (simp_all add: string_eval)

lemma strict_not_bullet: "\<not> isBullet strict_config" "mode strict_config \<noteq> Chaos"
  by (simp_all add: isBullet_def strict_config_def)

theorem strike_counter_reset_and_increment_witness:
  "(\<exists>fl s'. step strict_config book_chess 0 \<lparr>rs_outcome = Returned ''zzzz'', rs_moveTime = 10\<rparr>
                (first_ply strict_config) = Some (fl, s')
            \<and> illegalCounts s' = \<lparr>white = 1, black = 0\<rparr>)
   \<and> (\<exists>fl s'. step strict_config book_chess 2 \<lparr>rs_outcome = Returned ''e2e4'', rs_moveTime = 10\<rparr>
                ((first_ply strict_config)\<lparr>illegalCounts := \<lparr>white = 2, black = 0\<rparr>\<rparr>) = Some (fl, s')
            \<and> illegalCounts s' = \<lparr>white = 0, black = 0\<rparr> \<and> white (lastIllegal s') = None)"
proof -
  let ?r1 = "\<lparr>rs_outcome = Returned ''zzzz'', rs_moveTime = 10\<rparr>"
  let ?r2 = "\<lparr>rs_outcome = Returned ''e2e4'', rs_moveTime = 10\<rparr>"
  let ?s2 = "(first_ply strict_config)\<lparr>illegalCounts := \<lparr>white = 2, black = 0\<rparr>\<rparr>"
  obtain fl1 s1 where st1: "step strict_config book_chess 0 ?r1 (first_ply strict_config) = Some (fl1, s1)"
    using step_total_not_chaos[OF strict_not_bullet(2)] by blast
  obtain fl2 s2 where st2: "step strict_config book_chess 2 ?r2 ?s2 = Some (fl2, s2)"
    using step_total_not_chaos[OF strict_not_bullet(2)] by blast
  have t1: "White = chess_turn book_chess (chess (first_ply strict_config))"
    and t2: "White = chess_turn book_chess (chess ?s2)"
    by (simp_all add: first_ply_def book_turn_start)
  have k1: "ply_kind_of strict_config book_chess ?r1 (first_ply strict_config) = IllegalAttempt"
    by (simp add: ply_kind_of_def strict_not_bullet text_zzzz book_move_zzzz)
  have k2: "ply_kind_of strict_config book_chess ?r2 ?s2 = LegalMove"
    by (simp add: ply_kind_of_def strict_not_bullet text_e2e4 first_ply_def book_move_e2e4)
  from strike_counter_reset_and_increment[OF st1 t1] k1
  have "illegalCounts s1 = \<lparr>white = 1, black = 0\<rparr>" by (simp add: first_ply_def)
  moreover from strike_counter_reset_and_increment[OF st2 t2] k2
  have "illegalCounts s2 = \<lparr>white = 0, black = 0\<rparr> \<and> white (lastIllegal s2) = None" by simp
  ultimately show ?thesis using st1 st2 by blast
qed

subsection \<open>The loop\<close>

lemma ply_loop_Continue:
  "ply < MAX_PLY \<Longrightarrow> step cfg r ply (ag ply (request_for cfg r s)) s = Some (Continue, s') \<Longrightarrow>
   ply_loop cfg r ag ply s = ply_loop cfg r ag (Suc ply) s'"
  by (subst ply_loop.simps) simp

lemma ply_loop_Return:
  "ply < MAX_PLY \<Longrightarrow> step cfg r ply (ag ply (request_for cfg r s)) s = Some (Return, s') \<Longrightarrow>
   ply_loop cfg r ag ply s = Some s'"
  by (subst ply_loop.simps) simp

lemma start_from_ply:
  "state_at_ply cfg r ag n = Some s \<Longrightarrow> n \<le> MAX_PLY \<Longrightarrow> start cfg r ag = ply_loop cfg r ag n s"
proof (induction n arbitrary: s)
  case 0
  then show ?case by (auto simp: start_def split: option.splits)
next
  case (Suc n)
  from Suc.prems(1) obtain s0 where s0: "state_at_ply cfg r ag n = Some s0"
    and st: "step cfg r n (ag n (request_for cfg r s0)) s0 = Some (Continue, s)"
    by (auto split: option.splits prod.splits flow.splits)
  from Suc.prems(2) have "n < MAX_PLY" "n \<le> MAX_PLY" by simp_all
  with Suc.IH[OF s0] st show ?case by (simp add: ply_loop_Continue)
qed

lemma state_at_ply_induct [consumes 1, case_names at_start after_step]:
  assumes "state_at_ply cfg r ag n = Some s"
    and "\<And>s0. initialState cfg r = Some s0 \<Longrightarrow> P (send s0 (Status MatchStarting None (clockSnapshot cfg s0) None))"
    and "\<And>k s s'. state_at_ply cfg r ag k = Some s \<Longrightarrow> P s \<Longrightarrow>
            step cfg r k (ag k (request_for cfg r s)) s = Some (Continue, s') \<Longrightarrow> P s'"
  shows "P s"
  using assms(1)
proof (induction n arbitrary: s)
  case 0
  then show ?case using assms(2) by (auto split: option.splits)
next
  case (Suc n)
  from Suc.prems obtain s0 where s0: "state_at_ply cfg r ag n = Some s0"
    and st: "step cfg r n (ag n (request_for cfg r s0)) s0 = Some (Continue, s)"
    by (auto split: option.splits prod.splits flow.splits)
  from assms(3)[OF s0 Suc.IH[OF s0] st] show ?case .
qed

subsection \<open>The request timeout\<close>

lemma initialClockMs_bullet: "mode cfg = Bullet \<Longrightarrow> 60000 \<le> initialClockMs cfg"
  by (auto simp: initialClockMs_def isBullet_def Let_def split: option.splits js_number.splits)

lemma bullet_clocks_positive:
  assumes "mode cfg = Bullet" "state_at_ply cfg r ag n = Some s"
  shows "0 < cget c (clocks s)"
  using assms(2)
proof (induction arbitrary: c rule: state_at_ply_induct)
  case (at_start s0)
  have "0 < initialClockMs cfg" using initialClockMs_bullet[OF assms(1)] by simp
  with at_start show ?case by (cases c) (auto simp: initialState_def Let_def send_def split: option.splits)
next
  case (after_step k s s')
  let ?a = "chess_turn r (chess s)"
  have b: "isBullet cfg" using assms(1) by (simp add: isBullet_def)
  have ck: "clocks s' = cset ?a (max 0 (cget ?a (clocks s) - rs_moveTime (ag k (request_for cfg r s)))) (clocks s)"
    using step_clocks[OF after_step(2)] b by (simp add: chargeClock_fields)
  have "ply_kind_of cfg r (ag k (request_for cfg r s)) s \<noteq> FlagFall"
    using step_Continue_kind[OF after_step(2)] by auto
  then have "0 < cget ?a (clocks s) - rs_moveTime (ag k (request_for cfg r s))"
    using b by (auto simp: ply_kind_of_def split: if_splits)
  then show ?case using after_step(3)[of c] by (simp add: ck cget_cset)
qed

text \<open>
  Claim C4, as amended. In the timed variant the request timeout of every ply is
  max(500, min(MOVE_TIMEOUT_MS, remaining clock of the side to move)): it never exceeds
  the larger of 500 ms and the remaining clock, nor the larger of 500 ms and
  MOVE_TIMEOUT_MS, and so respects both bounds whenever they are at least 500 ms.
\<close>

theorem per_move_timeout_bounds:
  assumes "mode cfg = Bullet"
    and "state_at_ply cfg r ag n = Some s"
    and "a = chess_turn r (chess s)"
  shows "0 < cget a (clocks s)
       \<and> rq_timeout (request_for cfg r s) = max 500 (min (MOVE_TIMEOUT_MS cfg) (cget a (clocks s)))
       \<and> rq_timeout (request_for cfg r s) \<le> max 500 (cget a (clocks s))
       \<and> rq_timeout (request_for cfg r s) \<le> max 500 (MOVE_TIMEOUT_MS cfg)
       \<and> (500 \<le> cget a (clocks s) \<longrightarrow> rq_timeout (request_for cfg r s) \<le> cget a (clocks s))
       \<and> (500 \<le> MOVE_TIMEOUT_MS cfg \<longrightarrow> rq_timeout (request_for cfg r s) \<le> MOVE_TIMEOUT_MS cfg)"
proof -
  have p: "0 < cget a (clocks s)" by (rule bullet_clocks_positive[OF assms(1,2)])
  have t: "rq_timeout (request_for cfg r s) = max 500 (min (MOVE_TIMEOUT_MS cfg) (cget a (clocks s)))"
    using p assms(1,3) by (simp add: request_for_def perMoveTimeout_def isBullet_def Let_def)
  show ?thesis using p unfolding t by auto
qed

lemma empty_message: "str_includes (toLowerCase ''Model returned an empty move'') ''empty move''"
  by (simp add: string_eval)

lemma bullet_1min: "isBullet bullet_config" "initialClockMs bullet_config = 60000" "mode bullet_config = Bullet"
  "MOVE_TIMEOUT_MS bullet_config = 12000"
  by (simp_all add: isBullet_def initialClockMs_def bullet_config_def strict_config_def)

lemma low_clock_reached: "state_at_ply bullet_config book_chess slow_empty_agent 2 = Some low_clock_state"
proof -
  have two: "(2::nat) = Suc (Suc 0)" by simp
  show ?thesis
    unfolding two state_at_ply.simps book_initial
    by (simp add: slow_empty_agent_def scripted_agent_def step_def chargeClock_def flagged_def bullet_1min
        empty_message onEmptyMove_def noteEmptyMove_def addStrike_def send_def clockSnapshot_def strikeOut_def book_turn_start
        low_clock_state_def Let_def)
qed

theorem per_move_timeout_exceeds_clock:
  "map_option (chess_turn book_chess \<circ> chess) (state_at_ply bullet_config book_chess slow_empty_agent 2) = Some White
   \<and> map_option (cget White \<circ> clocks) (state_at_ply bullet_config book_chess slow_empty_agent 2) = Some 200
   \<and> map_option (rq_timeout \<circ> request_for bullet_config book_chess)
        (state_at_ply bullet_config book_chess slow_empty_agent 2) = Some 500"
  unfolding low_clock_reached
  by (simp add: low_clock_state_def book_turn_start request_for_def perMoveTimeout_def bullet_1min)

theorem per_move_timeout_bounds_witness:
  "rq_timeout (request_for bullet_config book_chess low_clock_state) = 500
   \<and> rq_timeout (request_for bullet_config book_chess (first_ply bullet_config)) = 12000"
proof -
  have w: "White = chess_turn book_chess (chess low_clock_state)"
     "White = chess_turn book_chess (chess (first_ply bullet_config))"
    by (simp_all add: low_clock_state_def first_ply_def book_turn_start)
  from per_move_timeout_bounds[OF bullet_1min(3) low_clock_reached w(1)]
       per_move_timeout_bounds[OF bullet_1min(3) book_first_ply[of bullet_config slow_empty_agent] w(2)]
  show ?thesis
    by (simp add: low_clock_state_def first_ply_def bullet_1min)
qed

subsection \<open>Three strikes\<close>

lemma not_chaos: "mode cfg \<noteq> Chaos \<Longrightarrow> mode cfg = Strict \<or> mode cfg = Bullet"
  by (cases "mode cfg") auto

lemma noteIllegal_out:
  "\<exists>ev. is_strike ev \<and> out (noteIllegal cfg r ply a raw cleaned s) = out s @ [ev]"
  by (cases a) (simp_all add: noteIllegal_def Let_def send_def addStrike_def)

lemma noteEmptyMove_fields:
  "clocks (noteEmptyMove cfg ply a s) = clocks s"
  "moves (noteEmptyMove cfg ply a s) = moves s"
  "chess (noteEmptyMove cfg ply a s) = chess s"
  "fen (noteEmptyMove cfg ply a s) = fen s"
  "closed (noteEmptyMove cfg ply a s) = closed s"
  "illegalCounts (noteEmptyMove cfg ply a s) = cset a (cget a (illegalCounts s) + 1) (illegalCounts s)"
  by (simp_all add: noteEmptyMove_def Let_def stream_defs addStrike_def)

lemma noteEmptyMove_out:
  "\<exists>ev. is_strike ev \<and> out (noteEmptyMove cfg ply a s) = out s @ [ev]"
  by (cases a) (simp_all add: noteEmptyMove_def Let_def send_def addStrike_def)

lemma endMatch_fields:
  "closed (endMatch cfg r w rsn s)"
  "out (endMatch cfg r w rsn s) = out s @ [End (buildResult r w rsn (moves s) (illegalCounts s) (chess s)
                           (clockSnapshot cfg s) (Some (lastIllegalMoves s)))]"
  "illegalCounts (endMatch cfg r w rsn s) = illegalCounts s"
  "moves (endMatch cfg r w rsn s) = moves s"
  "chess (endMatch cfg r w rsn s) = chess s"
  "clocks (endMatch cfg r w rsn s) = clocks s"
  "fen (endMatch cfg r w rsn s) = fen s"
  by (simp_all add: endMatch_def send_def close_def)

lemma buildResult_fields:
  "res_winner (buildResult r w rsn mvs counts ch clk lil) = w"
  "res_reason (buildResult r w rsn mvs counts ch clk lil) = rsn"
  "res_moves (buildResult r w rsn mvs counts ch clk lil) = mvs"
  "res_illegalCounts (buildResult r w rsn mvs counts ch clk lil) = counts"
  "res_clocks (buildResult r w rsn mvs counts ch clk lil) = clk"
  "res_finalFen (buildResult r w rsn mvs counts ch clk lil) = chess_fen r ch"
  by (simp_all add: buildResult_def)

text \<open>A strike in the strict and timed variants: what the ply does.\<close>

lemma strike_ply:
  assumes nc: "mode cfg \<noteq> Chaos"
    and st: "step cfg r ply resp s = Some (fl, s')"
    and k: "ply_kind_of cfg r resp s = IllegalAttempt \<or> ply_kind_of cfg r resp s = EmptyResponse"
  shows "\<exists>s4 ev. is_strike ev \<and> out s4 = out s @ [ev] \<and> closed s4 = closed s \<and> moves s4 = moves s
           \<and> chess s4 = chess s
           \<and> illegalCounts s4 = cset (chess_turn r (chess s)) (cget (chess_turn r (chess s)) (illegalCounts s) + 1) (illegalCounts s)
           \<and> (fl, s') = (if 3 \<le> cget (chess_turn r (chess s)) (illegalCounts s) + 1
                         then (Return, endMatch cfg r (Winner (opponent (chess_turn r (chess s)))) Illegal s4)
                         else (Continue, s4))"
  using st
proof (cases rule: step_cases)
  case EmptyResponse
  let ?a = "chess_turn r (chess s)"
  let ?s1 = "chargeClock cfg ?a (rs_moveTime resp) s"
  let ?s4 = "noteEmptyMove cfg ply ?a ?s1"
  obtain ev where ev: "is_strike ev" "out ?s4 = out ?s1 @ [ev]"
    using noteEmptyMove_out by blast
  have so: "strikeOut cfg ?a ?s4 = (3 \<le> cget ?a (illegalCounts s) + 1)"
    using not_chaos[OF nc] by (auto simp: strikeOut_def noteEmptyMove_fields chargeClock_fields cget_cset)
  show ?thesis
    using EmptyResponse(2) ev
    by (intro exI[of _ ?s4] exI[of _ ev])
       (auto simp: onEmptyMove_def Let_def so noteEmptyMove_fields chargeClock_fields split: if_splits)
next
  case (IllegalAttempt raw)
  let ?a = "chess_turn r (chess s)"
  let ?s1 = "chargeClock cfg ?a (rs_moveTime resp) s"
  let ?s4 = "noteIllegal cfg r ply ?a (trim raw) (toLowerCase (trim raw)) ?s1"
  obtain ev where ev: "is_strike ev" "out ?s4 = out ?s1 @ [ev]"
    using noteIllegal_out by blast
  have so: "strikeOut cfg ?a ?s4 = (3 \<le> cget ?a (illegalCounts s) + 1)"
    using not_chaos[OF nc] by (auto simp: strikeOut_def noteIllegal_fields chargeClock_fields cget_cset)
  show ?thesis
    using IllegalAttempt(4) ev
    by (intro exI[of _ ?s4] exI[of _ ev])
       (auto simp: onIllegal_not_chaos[OF nc] Let_def so noteIllegal_fields chargeClock_fields split: if_splits)
qed (use k in simp_all)

lemma strikes_below_three:
  assumes nc: "mode cfg \<noteq> Chaos" and "state_at_ply cfg r ag n = Some s"
  shows "cget c (illegalCounts s) < 3"
  using assms(2)
proof (induction arbitrary: c rule: state_at_ply_induct)
  case (at_start s0)
  then show ?case by (cases c) (auto simp: initialState_def Let_def send_def split: option.splits)
next
  case (after_step k s s')
  let ?resp = "ag k (request_for cfg r s)"
  let ?a = "chess_turn r (chess s)"
  from step_Continue_kind[OF after_step(2)]
  consider (strike) "ply_kind_of cfg r ?resp s = IllegalAttempt \<or> ply_kind_of cfg r ?resp s = EmptyResponse"
    | (legal) "ply_kind_of cfg r ?resp s = LegalMove" by blast
  then show ?case
  proof cases
    case strike
    from strike_ply[OF nc after_step(2) strike]
    have "\<not> 3 \<le> cget ?a (illegalCounts s) + 1"
      and "illegalCounts s' = cset ?a (cget ?a (illegalCounts s) + 1) (illegalCounts s)"
      by (auto split: if_splits)
    then show ?thesis using after_step(3)[of c] by (simp add: cget_cset)
  next
    case legal
    with step_counts[OF after_step(2)] after_step(3)[of c] show ?thesis by (simp add: cget_cset)
  qed
qed

text \<open>A refused text in the strict and timed variants, while the clock has not fallen.\<close>

lemma refused_ply:
  assumes nc: "mode cfg \<noteq> Chaos"
    and "rs_outcome resp = Returned tok"
    and "toLowerCase (trim tok) \<noteq> ''resign''"
    and "chess_move r (chess s) (trim tok) = None"
    and "isBullet cfg \<longrightarrow> rs_moveTime resp < cget (chess_turn r (chess s)) (clocks s)"
  shows "\<exists>fl s' s4 ev. step cfg r ply resp s = Some (fl, s')
           \<and> is_strike ev \<and> out s4 = out s @ [ev] \<and> closed s4 = closed s \<and> moves s4 = moves s
           \<and> chess s4 = chess s
           \<and> illegalCounts s4 = cset (chess_turn r (chess s)) (cget (chess_turn r (chess s)) (illegalCounts s) + 1) (illegalCounts s)
           \<and> clocks s4 = clocks (chargeClock cfg (chess_turn r (chess s)) (rs_moveTime resp) s)
           \<and> (fl, s') = (if 3 \<le> cget (chess_turn r (chess s)) (illegalCounts s) + 1
                         then (Return, endMatch cfg r (Winner (opponent (chess_turn r (chess s)))) Illegal s4)
                         else (Continue, s4))"
proof -
  have k: "ply_kind_of cfg r resp s = IllegalAttempt"
    using assms(2-5) by (auto simp: ply_kind_of_def)
  obtain fl s' where st: "step cfg r ply resp s = Some (fl, s')"
    using step_total_not_chaos[OF nc] by blast
  from strike_ply[OF nc st] k obtain s4 ev where
    f: "is_strike ev" "out s4 = out s @ [ev]" "closed s4 = closed s" "moves s4 = moves s" "chess s4 = chess s"
       "illegalCounts s4 = cset (chess_turn r (chess s)) (cget (chess_turn r (chess s)) (illegalCounts s) + 1) (illegalCounts s)"
       "(fl, s') = (if 3 \<le> cget (chess_turn r (chess s)) (illegalCounts s) + 1
                         then (Return, endMatch cfg r (Winner (opponent (chess_turn r (chess s)))) Illegal s4)
                         else (Continue, s4))"
    by blast
  have "clocks s4 = clocks s'" using f(7) by (auto simp: endMatch_fields split: if_splits)
  then have "clocks s4 = clocks (chargeClock cfg (chess_turn r (chess s)) (rs_moveTime resp) s)"
    using step_clocks[OF st] by simp
  with st f show ?thesis by blast
qed

lemma bullet_not_chaos: "mode bullet_config \<noteq> Chaos"
  by (simp add: bullet_config_def)

subsection \<open>The chaos variant\<close>

lemma chaos_no_strikeOut: "mode cfg = Chaos \<Longrightarrow> \<not> strikeOut cfg a s"
  by (simp add: strikeOut_def)

lemma chaos_not_bullet: "mode cfg = Chaos \<Longrightarrow> \<not> isBullet cfg"
  by (simp add: isBullet_def)


lemma chaosBlock_loaded:
  assumes "mode cfg = Chaos" "parseUciMove cleaned = Some u"
    and "applyChaosMove r (fen s) u (chess_turn r (chess s)) (fullmove s) = Some ch"
    and "chess_load r (ch_fen ch) = Some p"
  shows "\<exists>s2 mv. chaosBlock cfg r ply a t cleaned s = Some (Continue, s2)
           \<and> fen s2 = ch_fen ch \<and> chess s2 = p \<and> moves s2 = moves s @ [ch_san ch]
           \<and> fullmove s2 = fullmoveOf (ch_fen ch) (fullmove s)
           \<and> illegalCounts s2 = illegalCounts s \<and> closed s2 = closed s
           \<and> out s2 = out s @ [Move mv] \<and> mv_move mv = ch_san ch \<and> mv_fen mv = ch_fen ch
           \<and> mv_note mv = Some chaosNote \<and> mv_ply mv = ply \<and> mv_activeColor mv = a"
  using assms by (simp add: chaosBlock_def Let_def send_def)


subsection \<open>Squares and boards\<close>

lemma index_nth:
  "x \<in> set xs \<Longrightarrow> length (takeWhile (\<lambda>y. y \<noteq> x) xs) < length xs \<and> xs ! length (takeWhile (\<lambda>y. y \<noteq> x) xs) = x"
  by (induction xs) auto

lemma digit_val_digit: "d \<in> set ascii_digits \<Longrightarrow> digit_val d < 10 \<and> ascii_digits ! digit_val d = d"
  using index_nth[of d ascii_digits] by (simp add: digit_val_def) (simp add: ascii_digits_def)

lemma rank_digit:
  assumes "d \<in> set ''12345678''"
  shows "1 \<le> digit_val d \<and> digit_val d \<le> 8 \<and> d \<in> set ascii_digits"
  using assms by (simp, elim disjE; simp add: digit_val_def ascii_digits_def)

lemma isSquare_cases: "isSquare sq \<Longrightarrow> \<exists>f d. sq = [f, d] \<and> f \<in> set files \<and> d \<in> set ''12345678''"
  by (auto simp: isSquare_def split: list.splits)

lemma squareToIndex_square:
  assumes "isSquare sq"
  shows "\<exists>rk fl. squareToIndex sq = Some (rk, fl) \<and> rk < 8 \<and> fl < 8"
proof -
  from isSquare_cases[OF assms] obtain f d where sq: "sq = [f, d]" "f \<in> set files" "d \<in> set ''12345678''"
    by blast
  have "length (takeWhile (\<lambda>x. x \<noteq> f) files) < 8"
    using index_nth[OF sq(2)] by (simp add: files_def)
  moreover have "8 - digit_val d < 8" using rank_digit[OF sq(3)] by simp
  ultimately show ?thesis using assms by (simp add: squareToIndex_def sq(1))
qed

lemma squareToIndex_inj:
  assumes "isSquare a" "isSquare b" "squareToIndex a = squareToIndex b"
  shows "a = b"
proof -
  from isSquare_cases[OF assms(1)] obtain f d where a: "a = [f, d]" "f \<in> set files" "d \<in> set ''12345678''"
    by blast
  from isSquare_cases[OF assms(2)] obtain g e where b: "b = [g, e]" "g \<in> set files" "e \<in> set ''12345678''"
    by blast
  from assms have eq: "8 - digit_val d = 8 - digit_val e"
    "length (takeWhile (\<lambda>x. x \<noteq> f) files) = length (takeWhile (\<lambda>x. x \<noteq> g) files)"
    by (simp_all add: squareToIndex_def a(1) b(1))
  have "digit_val d = digit_val e" using eq(1) rank_digit[OF a(3)] rank_digit[OF b(3)] by arith
  then have "d = e" using digit_val_digit[of d] digit_val_digit[of e] rank_digit[OF a(3)] rank_digit[OF b(3)]
    by metis
  moreover have "f = g" using index_nth[OF a(2)] index_nth[OF b(2)] eq(2) by metis
  ultimately show ?thesis by (simp add: a(1) b(1))
qed

lemma nth_opt_update:
  "nth_opt (xs[i := v]) j = (if i = j \<and> j < length xs then Some v else nth_opt xs j)"
  by (auto simp: nth_opt_nth)

subsection \<open>The piece placement of a FEN\<close>

lemma show_nat_digit: "n < 10 \<Longrightarrow> show_nat n = [digit_char n]"
  by (subst show_nat.simps) simp

lemma digit_char_digit: "digit_char n \<in> set ascii_digits"
  unfolding digit_char_def by (rule nth_mem) (simp add: ascii_digits_def)

lemma show_nat_digits: "set (show_nat n) \<subseteq> set ascii_digits"
proof (induction n rule: show_nat.induct)
  case (1 n)
  show ?case
  proof (cases "n < 10")
    case True
    then show ?thesis using digit_char_digit by (simp add: show_nat_digit)
  next
    case False
    then show ?thesis using 1 digit_char_digit by (subst show_nat.simps) simp
  qed
qed

lemma index_distinct:
  "distinct xs \<Longrightarrow> n < length xs \<Longrightarrow> length (takeWhile (\<lambda>y. y \<noteq> xs ! n) xs) = n"
proof (induction xs arbitrary: n)
  case Nil
  then show ?case by simp
next
  case (Cons x xs)
  show ?case
  proof (cases n)
    case 0
    then show ?thesis by simp
  next
    case (Suc m)
    with Cons.prems have "xs ! m \<in> set xs" "x \<notin> set xs" by simp_all
    then have "x \<noteq> xs ! m" by blast
    with Suc Cons show ?thesis by simp
  qed
qed

lemma digit_val_char: "n < 10 \<Longrightarrow> digit_val (digit_char n) = n \<and> is_digit (digit_char n)"
proof -
  assume n: "n < 10"
  have "distinct ascii_digits" "n < length ascii_digits" using n by (simp_all add: ascii_digits_def)
  then have "digit_val (ascii_digits ! n) = n" unfolding digit_val_def by (rule index_distinct)
  then show ?thesis using n digit_char_digit[of n] by (simp add: digit_char_def is_digit_def)
qed

lemma fen_cell_count: "n < 10 \<Longrightarrow> fen_cell (digit_char n) = replicate n None"
  by (simp add: fen_cell_def digit_val_char)

lemma symbol_cases:
  "t \<in> set piece_symbols \<Longrightarrow> t = CHR ''p'' \<or> t = CHR ''n'' \<or> t = CHR ''b'' \<or> t = CHR ''r'' \<or> t = CHR ''q'' \<or> t = CHR ''k''"
  by (simp add: piece_symbols_def)

lemma fen_cell_piece:
  assumes "t \<in> set piece_symbols"
  shows "fen_cell (if c = White then toUpperCase_char t else toLowerCase_char t) = [Some (t, c)]"
  using symbol_cases[OF assms]
  by (cases c; elim disjE; simp add: fen_cell_def is_digit_def toUpperCase_char_def toLowerCase_char_def
            ascii_upper_def ascii_lower_def ascii_digits_def)

lemma piece_char_fen:
  assumes "t \<in> set piece_symbols"
  shows "(if c = White then toUpperCase_char t else toLowerCase_char t) \<in> set fen_chars"
  using symbol_cases[OF assms]
  by (cases c; elim disjE; simp add: fen_chars_def toUpperCase_char_def toLowerCase_char_def
            ascii_upper_def ascii_lower_def)

lemma digits_fen: "set ascii_digits \<subseteq> set fen_chars"
  by (simp add: ascii_digits_def fen_chars_def)

lemma rankToFen_decode:
  "list_all cell_ok rank \<Longrightarrow> n + length rank < 10 \<Longrightarrow>
   concat (map fen_cell (rankToFen rank n row)) = concat (map fen_cell row) @ replicate n None @ rank"
proof (induction rank n row rule: rankToFen.induct)
  case (1 n_empty row)
  then show ?case by (simp add: show_nat_digit fen_cell_count)
next
  case (2 rest n_empty row)
  then show ?case by (simp add: replicate_app_Cons_same)
next
  case (3 symbol c rest n_empty row)
  from 3(2) have "cell_ok (Some (symbol, c))" and ok2: "list_all cell_ok rest" by simp_all
  then have ok1: "symbol \<in> set piece_symbols" by (simp add: cell_ok_def)
  note ok = ok1 ok2
  from 3(3) have n: "n_empty < 10" "0 + length rest < 10" by simp_all
  show ?case
    using "3.IH"[OF refl ok(2) n(2)] n(1) fen_cell_piece[OF ok(1), of c]
    by (simp add: Let_def show_nat_digit fen_cell_count del: fen_cell_piece)
qed

lemma rankToFen_chars:
  "list_all cell_ok rank \<Longrightarrow> set row \<subseteq> set fen_chars \<Longrightarrow> set (rankToFen rank n row) \<subseteq> set fen_chars"
proof (induction rank n row rule: rankToFen.induct)
  case (1 n_empty row)
  then show ?case using show_nat_digits[of n_empty] digits_fen by auto
next
  case (2 rest n_empty row)
  then show ?case by simp
next
  case (3 symbol c rest n_empty row)
  from 3(2) have "cell_ok (Some (symbol, c))" and ok2: "list_all cell_ok rest" by simp_all
  then have ok1: "symbol \<in> set piece_symbols" by (simp add: cell_ok_def)
  note ok = ok1 ok2
  have "set (if n_empty \<noteq> 0 then row @ show_nat n_empty else row) \<subseteq> set fen_chars"
    using 3(3) show_nat_digits[of n_empty] digits_fen by auto
  then show ?case
    using "3.IH"[OF refl ok(2)] piece_char_fen[OF ok(1), of c] by (simp add: Let_def)
qed

lemma split_on_no_sep: "sep \<notin> set s \<Longrightarrow> split_on sep s = [s]"
  by (induction s) auto

lemma split_on_append:
  "sep \<notin> set a \<Longrightarrow> split_on sep (a @ sep # rest) = a # split_on sep rest"
  by (induction a) auto

lemma split_on_join:
  "rows \<noteq> [] \<Longrightarrow> \<forall>row \<in> set rows. sep \<notin> set row \<Longrightarrow> split_on sep (join [sep] rows) = rows"
proof (induction "[sep]" rows rule: join.induct)
  case 1
  then show ?case by simp
next
  case (2 x)
  then show ?case by (simp add: split_on_no_sep)
next
  case (3 x y ys)
  then show ?case by (simp add: split_on_append)
qed

lemma join_chars:
  "\<forall>row \<in> set rows. set row \<subseteq> A \<Longrightarrow> set sep \<subseteq> A \<Longrightarrow> set (join sep rows) \<subseteq> A"
  by (induction sep rows rule: join.induct) auto

lemma boardToFen_rows:
  assumes "board_ok b"
  shows "split_on CHR ''/'' (boardToFen b) = map (\<lambda>rank. rankToFen rank 0 []) b"
    and "CHR '' '' \<notin> set (boardToFen b)"
proof -
  have rows: "\<forall>row \<in> set (map (\<lambda>rank. rankToFen rank 0 []) b). set row \<subseteq> set fen_chars"
    using assms rankToFen_chars[of _ "[]" 0] by (auto simp: board_ok_def list_all_iff)
  have ne: "map (\<lambda>rank. rankToFen rank 0 []) b \<noteq> []" using assms by (auto simp: board_ok_def)
  have slash: "CHR ''/'' \<notin> set fen_chars" "CHR '' '' \<notin> set fen_chars" by (simp_all add: fen_chars_def)
  show "split_on CHR ''/'' (boardToFen b) = map (\<lambda>rank. rankToFen rank 0 []) b"
    unfolding boardToFen_def using rows slash(1) by (intro split_on_join[OF ne]) auto
  have "set (boardToFen b) \<subseteq> set fen_chars \<union> {CHR ''/''}"
    unfolding boardToFen_def using rows by (intro join_chars) auto
  then show "CHR '' '' \<notin> set (boardToFen b)" using slash(2) by auto
qed

lemma fen_board_roundtrip:
  assumes "board_ok b"
  shows "fen_board (boardToFen b @ CHR '' '' # rest) = b"
proof -
  have pl: "fen_placement (boardToFen b @ CHR '' '' # rest) = boardToFen b"
    using boardToFen_rows(2)[OF assms] by (simp add: fen_placement_def split_on_append)
  have "\<And>rank. rank \<in> set b \<Longrightarrow> concat (map fen_cell (rankToFen rank 0 [])) = rank"
    using assms rankToFen_decode[of _ 0 "[]"] by (auto simp: board_ok_def list_all_iff)
  then show ?thesis
    by (simp add: fen_board_def pl boardToFen_rows(1)[OF assms] map_idI o_def)
qed

subsection \<open>The chaos move\<close>

lemma board_ok_grid: "board_ok b \<Longrightarrow> length b = 8 \<and> (\<forall>row \<in> set b. length row = 8)"
  by (auto simp: board_ok_def list_all_iff)

lemma square_at_nth:
  assumes "length b = 8" "\<forall>row \<in> set b. length row = 8" "squareToIndex sq = Some (rk, fl)" "rk < 8" "fl < 8"
  shows "square_at b sq = b ! rk ! fl"
proof -
  have "b ! rk \<in> set b" using assms(1,4) by simp
  then have "length (b ! rk) = 8" using assms(2) by blast
  then show ?thesis using assms by (simp add: square_at_def nth_opt_nth)
qed

lemma update_grid:
  assumes "length b = 8" "\<forall>row \<in> set b. length row = 8"
  shows "length (b[r := (b ! r)[f := v]]) = 8 \<and> (\<forall>row \<in> set (b[r := (b ! r)[f := v]]). length row = 8)"
proof (cases "r < length b")
  case True
  then have "b ! r \<in> set b" by simp
  then have "length ((b ! r)[f := v]) = 8" using assms(2) by simp
  then show ?thesis using assms by (auto dest!: set_update_subset_insert[THEN subsetD])
next
  case False
  then show ?thesis using assms by (simp add: list_update_beyond)
qed

lemma update_cell:
  assumes "length b = 8" "\<forall>row \<in> set b. length row = 8" "r < 8" "f < 8" "r' < 8" "f' < 8"
  shows "b[r' := (b ! r')[f' := v]] ! r ! f = (if r = r' \<and> f = f' then v else b ! r ! f)"
proof -
  have "b ! r' \<in> set b" using assms(1,5) by simp
  then have "length (b ! r') = 8" using assms(2) by blast
  then show ?thesis using assms by (auto simp: nth_list_update)
qed

lemma update_ok:
  assumes "board_ok b" "cell_ok v"
  shows "board_ok (b[r := (b ! r)[f := v]])"
proof (cases "r < length b")
  case True
  then have row: "b ! r \<in> set b" by simp
  have "list_all cell_ok ((b ! r)[f := v])"
    using assms row by (auto simp: board_ok_def list_all_iff dest!: set_update_subset_insert[THEN subsetD])
  moreover have "length ((b ! r)[f := v]) = 8" using assms(1) row by (auto simp: board_ok_def list_all_iff)
  ultimately show ?thesis
    using assms(1) by (auto simp: board_ok_def list_all_iff dest!: set_update_subset_insert[THEN subsetD])
next
  case False
  then show ?thesis using assms by (simp add: list_update_beyond)
qed

lemma board_cell_ok:
  assumes "board_ok b" "r < 8" "f < 8"
  shows "cell_ok (b ! r ! f)"
proof -
  have row: "b ! r \<in> set b" using assms(1,2) by (simp add: board_ok_def)
  then have "length (b ! r) = 8" "list_all cell_ok (b ! r)" using assms(1) by (auto simp: board_ok_def list_all_iff)
  then show ?thesis using assms(3) by (simp add: list_all_length)
qed

lemma show_int_no_space: "CHR '' '' \<notin> set (show_int i)"
proof -
  have "CHR '' '' \<notin> set ascii_digits" by (simp add: ascii_digits_def)
  then have "\<And>n. CHR '' '' \<notin> set (show_nat n)" using show_nat_digits by blast
  then show ?thesis by (simp add: show_int_def)
qed

lemma fen_fields:
  assumes "CHR '' '' \<notin> set placement"
  shows "split_on CHR '' '' (placement @ '' '' @ [color_char t] @ '' - - 0 '' @ show_int i)
           = [placement, [color_char t], ''-'', ''-'', ''0'', show_int i]"
proof -
  have t: "CHR '' '' \<notin> set [color_char t]" by (cases t) simp_all
  have d: "CHR '' '' \<notin> set ''-''" "CHR '' '' \<notin> set ''0''" by simp_all
  have "split_on CHR '' '' (placement @ CHR '' '' # ([color_char t] @ CHR '' '' # (''-'' @ CHR '' '' #
            (''-'' @ CHR '' '' # (''0'' @ CHR '' '' # show_int i)))))
           = [placement, [color_char t], ''-'', ''-'', ''0'', show_int i]"
    by (simp only: split_on_append[OF assms] split_on_append[OF t] split_on_append[OF d(1)]
          split_on_append[OF d(2)] split_on_no_sep[OF show_int_no_space])
  then show ?thesis by simp
qed

text \<open>
  Claim C9. For every position the rules library loads (with a board of eight ranks of
  eight cells), every pair of squares, acting colour and full-move counter,
  \<^verbatim>\<open>applyChaosMove\<close> returns a FEN whose fields after the piece placement are the other
  colour as side to move, "-" for the castling rights, "-" for the en-passant square, 0 for
  the halfmove clock, and the full-move counter, incremented exactly when the acting colour
  is black. In the placement the destination square holds a piece of the acting colour,
  whatever the colour of the piece taken from the source square; its type is the promotion
  piece when one is given, else the type of the piece of the source square, else (the
  source square being empty) a pawn. The source square is empty afterwards unless it is
  the destination, and every other square is unchanged. The move token returned is source,
  destination and promotion letter.
\<close>

theorem applyChaosMove_result:
  assumes ld: "chess_load r f = Some base"
    and ok: "board_ok (chess_board r base)"
    and sq: "isSquare (from_sq u)" "isSquare (to_sq u)"
    and pr: "\<forall>t. promotion u = Some t \<longrightarrow> t \<in> set piece_symbols"
  shows "\<exists>ch. applyChaosMove r f u c n = Some ch
      \<and> ch_san ch = from_sq u @ to_sq u @ promotion_text (promotion u)
      \<and> split_on CHR '' '' (ch_fen ch)
          = [fen_placement (ch_fen ch), [color_char (opponent c)], ''-'', ''-'', ''0'',
             show_int (if c = Black then n + 1 else n)]
      \<and> board_ok (fen_board (ch_fen ch))
      \<and> square_at (fen_board (ch_fen ch)) (to_sq u)
          = Some (case promotion u of
                    Some t \<Rightarrow> t
                  | None \<Rightarrow> (case square_at (chess_board r base) (from_sq u) of
                               Some pc \<Rightarrow> fst pc
                             | None \<Rightarrow> CHR ''p''), c)
      \<and> (from_sq u \<noteq> to_sq u \<longrightarrow> square_at (fen_board (ch_fen ch)) (from_sq u) = None)
      \<and> (\<forall>s. isSquare s \<and> s \<noteq> from_sq u \<and> s \<noteq> to_sq u \<longrightarrow>
            square_at (fen_board (ch_fen ch)) s = square_at (chess_board r base) s)"
proof -
  let ?b = "chess_board r base"
  obtain fr ff where fi: "squareToIndex (from_sq u) = Some (fr, ff)" "fr < 8" "ff < 8"
    using squareToIndex_square[OF sq(1)] by blast
  obtain tr tf where ti: "squareToIndex (to_sq u) = Some (tr, tf)" "tr < 8" "tf < 8"
    using squareToIndex_square[OF sq(2)] by blast
  have g: "length ?b = 8" "\<forall>row \<in> set ?b. length row = 8" using board_ok_grid[OF ok] by simp_all
  have rowlen: "length (?b ! fr) = 8" using g fi(2) by simp
  have n1: "nth_opt ?b fr = Some (?b ! fr)" using g(1) fi(2) by (simp add: nth_opt_nth)
  have ex: "(case nth_opt (?b ! fr) ff of Some (Some pc) \<Rightarrow> Some pc | _ \<Rightarrow> None) = ?b ! fr ! ff"
    using rowlen fi(3) by (simp add: nth_opt_nth split: option.splits)
  have src: "square_at ?b (from_sq u) = ?b ! fr ! ff" by (rule square_at_nth[OF g fi])
  define ptype where "ptype = (case promotion u of Some t \<Rightarrow> t
                       | None \<Rightarrow> (case ?b ! fr ! ff of Some pc \<Rightarrow> fst pc | None \<Rightarrow> CHR ''p''))"
  have pt: "(case promotion u of Some t \<Rightarrow> t
             | None \<Rightarrow> fst (case ?b ! fr ! ff of Some e \<Rightarrow> e
                              | None \<Rightarrow> (case promotion u of Some t \<Rightarrow> t | None \<Rightarrow> CHR ''p'', c))) = ptype"
    by (simp add: ptype_def split: option.splits)
  have ptok: "ptype \<in> set piece_symbols"
  proof (cases "promotion u")
    case (Some t)
    then show ?thesis using pr by (simp add: ptype_def)
  next
    case None
    show ?thesis
    proof (cases "?b ! fr ! ff")
      case n: None
      with None show ?thesis by (simp add: ptype_def piece_symbols_def)
    next
      case (Some pc)
      with board_cell_ok[OF ok fi(2,3)] None show ?thesis by (simp add: ptype_def cell_ok_def)
    qed
  qed
  define b1 where "b1 = ?b[fr := (?b ! fr)[ff := None]]"
  define b2 where "b2 = b1[tr := (b1 ! tr)[tf := Some (ptype, c)]]"
  have ok1: "board_ok b1" unfolding b1_def by (rule update_ok[OF ok]) (simp add: cell_ok_def)
  have g1: "length b1 = 8" "\<forall>row \<in> set b1. length row = 8" using board_ok_grid[OF ok1] by simp_all
  have ok2: "board_ok b2" unfolding b2_def by (rule update_ok[OF ok1]) (simp add: cell_ok_def ptok)
  have g2: "length b2 = 8" "\<forall>row \<in> set b2. length row = 8" using board_ok_grid[OF ok2] by simp_all
  have n2: "nth_opt b1 tr = Some (b1 ! tr)" using g1(1) ti(2) by (simp add: nth_opt_nth)
  define ch where "ch = \<lparr>ch_fen = boardToFen b2 @ '' '' @ [color_char (opponent c)] @ '' - - 0 ''
                                    @ show_int (if c = Black then n + 1 else n),
                         ch_san = from_sq u @ to_sq u @ promotion_text (promotion u)\<rparr>"
  have opp: "(if c = White then Black else White) = opponent c" by (cases c) simp_all
  have run: "applyChaosMove r f u c n = Some ch"
    by (simp add: applyChaosMove_def ld fi(1) ti(1) n1 ex Let_def b1_def[symmetric] n2 pt
          b2_def[symmetric] opp ch_def)
  have nosp: "CHR '' '' \<notin> set (boardToFen b2)" by (rule boardToFen_rows(2)[OF ok2])
  have fields: "split_on CHR '' '' (ch_fen ch)
          = [boardToFen b2, [color_char (opponent c)], ''-'', ''-'', ''0'',
             show_int (if c = Black then n + 1 else n)]"
    unfolding ch_def using fen_fields[OF nosp] by simp
  have pl: "fen_placement (ch_fen ch) = boardToFen b2" by (simp add: fen_placement_def fields)
  have dec: "fen_board (ch_fen ch) = b2"
    unfolding ch_def using fen_board_roundtrip[OF ok2] by simp
  have cell2: "\<And>rk fl. rk < 8 \<Longrightarrow> fl < 8 \<Longrightarrow>
     b2 ! rk ! fl = (if rk = tr \<and> fl = tf then Some (ptype, c)
                     else if rk = fr \<and> fl = ff then None else ?b ! rk ! fl)"
    unfolding b2_def b1_def
    using update_cell[OF g1[unfolded b1_def] _ _ ti(2,3)] update_cell[OF g _ _ fi(2,3)] by simp
  have dst: "square_at b2 (to_sq u) = Some (ptype, c)"
    using square_at_nth[OF g2 ti] cell2[OF ti(2,3)] by simp
  have srcs: "square_at b2 (from_sq u) = None" if "from_sq u \<noteq> to_sq u"
  proof -
    have "(fr, ff) \<noteq> (tr, tf)" using squareToIndex_inj[OF sq] fi(1) ti(1) that by auto
    then show ?thesis using square_at_nth[OF g2 fi] cell2[OF fi(2,3)] by auto
  qed
  have others: "square_at b2 s = square_at ?b s" if h: "isSquare s" "s \<noteq> from_sq u" "s \<noteq> to_sq u" for s
  proof -
    obtain rk fl where si: "squareToIndex s = Some (rk, fl)" "rk < 8" "fl < 8"
      using squareToIndex_square[OF h(1)] by blast
    have "(rk, fl) \<noteq> (fr, ff)" using squareToIndex_inj[OF h(1) sq(1)] fi(1) si(1) h(2) by auto
    moreover have "(rk, fl) \<noteq> (tr, tf)" using squareToIndex_inj[OF h(1) sq(2)] ti(1) si(1) h(3) by auto
    ultimately show ?thesis
      using square_at_nth[OF g2 si] square_at_nth[OF g si] cell2[OF si(2,3)] by auto
  qed
  have ptype': "ptype = (case promotion u of Some t \<Rightarrow> t
                  | None \<Rightarrow> (case square_at ?b (from_sq u) of Some pc \<Rightarrow> fst pc | None \<Rightarrow> CHR ''p''))"
    unfolding ptype_def src by (rule refl)
  show ?thesis
    using run fields pl dec ok2 dst srcs others
    by (intro exI[of _ ch]) (simp add: ptype'[symmetric] ch_def)
qed

subsection \<open>Chaos moves on the small rules library\<close>

lemma book_board_start: "fen_board start_fen = start_board"
  by (simp add: fen_board_def fen_placement_def start_fen_def fen_cell_def string_eval start_board_def
        eval_nat_numeral)

lemma book_board_ok: "board_ok start_board"
  by (simp add: start_board_def board_ok_def cell_ok_def piece_symbols_def)

lemma book_board: "chess_board book_chess \<lparr>bp_fen = start_fen, bp_history = h\<rparr> = start_board"
  by (simp add: book_chess_def book_board_start)

lemma square_index_eval:
  "squareToIndex ''a2'' = Some (6, 0)" "squareToIndex ''a5'' = Some (3, 0)"
  "squareToIndex ''d1'' = Some (7, 3)" "squareToIndex ''e8'' = Some (0, 4)"
  "squareToIndex ''e7'' = Some (1, 4)" "squareToIndex ''e5'' = Some (3, 4)"
  "squareToIndex ''e4'' = Some (4, 4)"
  by (simp_all add: squareToIndex_def isSquare_def files_def digit_val_def ascii_digits_def)

lemma show_int_small: "show_int 1 = ''1''" "show_int 8 = ''8''" "show_int 2 = ''2''"
  by (simp_all add: show_int_def show_nat_digit digit_char_def ascii_digits_def)









lemma squares_eval: "isSquare ''e7''" "isSquare ''e5''" "isSquare ''e4''" "isSquare ''e8''"
  by (simp_all add: isSquare_def files_def)

lemma start_board_cells:
  "square_at start_board ''e7'' = Some (CHR ''p'', Black)" "square_at start_board ''e4'' = None"
  by (simp_all add: square_at_def square_index_eval nth_opt_nth start_board_def)

theorem applyChaosMove_result_witness:
  "(\<exists>ch. applyChaosMove book_chess start_fen \<lparr>from_sq = ''e7'', to_sq = ''e5'', promotion = None\<rparr> White 1 = Some ch
      \<and> ch_san ch = ''e7e5''
      \<and> split_on CHR '' '' (ch_fen ch) = [fen_placement (ch_fen ch), ''b'', ''-'', ''-'', ''0'', ''1'']
      \<and> square_at (fen_board (ch_fen ch)) ''e5'' = Some (CHR ''p'', White)
      \<and> square_at (fen_board (ch_fen ch)) ''e7'' = None)
   \<and> (\<exists>ch. applyChaosMove book_chess start_fen
               \<lparr>from_sq = ''e4'', to_sq = ''e8'', promotion = Some CHR ''q''\<rparr> Black 7 = Some ch
      \<and> ch_san ch = ''e4e8q''
      \<and> split_on CHR '' '' (ch_fen ch) = [fen_placement (ch_fen ch), ''w'', ''-'', ''-'', ''0'', ''8'']
      \<and> square_at (fen_board (ch_fen ch)) ''e8'' = Some (CHR ''q'', Black))"
proof -
  have ok: "board_ok (chess_board book_chess \<lparr>bp_fen = start_fen, bp_history = []\<rparr>)"
    by (simp add: book_board book_board_ok)
  have p1: "\<forall>t. promotion \<lparr>from_sq = ''e7'', to_sq = ''e5'', promotion = None\<rparr> = Some t \<longrightarrow> t \<in> set piece_symbols"
    and p2: "\<forall>t. promotion \<lparr>from_sq = ''e4'', to_sq = ''e8'', promotion = Some CHR ''q''\<rparr> = Some t \<longrightarrow> t \<in> set piece_symbols"
    by (simp_all add: piece_symbols_def)
  from applyChaosMove_result[OF book_loads_start ok _ _ p1, of White 1]
       applyChaosMove_result[OF book_loads_start ok _ _ p2, of Black 7]
  show ?thesis
    by (simp add: squares_eval book_board start_board_cells show_int_small promotion_text_def) blast
qed

subsection \<open>Chaos plies\<close>


lemma result_of_End: "out s = pre @ [End res] \<Longrightarrow> result_of s = Some res"
  by (simp add: result_of_def)

lemma chaos_illegal_step:
  assumes "mode cfg = Chaos" "rs_outcome resp = Returned raw" "toLowerCase (trim raw) \<noteq> ''resign''"
    and "chess_move r (chess s) (trim raw) = None"
  shows "step cfg r ply resp s
           = chaosBlock cfg r ply (chess_turn r (chess s)) (rs_moveTime resp) (toLowerCase (trim raw))
               (noteIllegal cfg r ply (chess_turn r (chess s)) (trim raw) (toLowerCase (trim raw)) s)"
proof -
  have nb: "\<not> isBullet cfg" by (rule chaos_not_bullet[OF assms(1)])
  have k: "ply_kind_of cfg r resp s = IllegalAttempt"
    using assms(2-4) nb by (simp add: ply_kind_of_def)
  have c: "chargeClock cfg (chess_turn r (chess s)) (rs_moveTime resp) s = s"
    using nb by (simp add: chargeClock_def)
  show ?thesis
    using assms(2) k
    by (auto simp: step_by_kind Let_def c onIllegal_def chaos_no_strikeOut[OF assms(1)]
             split: option.splits flow.splits)
qed

lemma chaos_executed_step:
  assumes "mode cfg = Chaos" "rs_outcome resp = Returned raw" "toLowerCase (trim raw) \<noteq> ''resign''"
    and "chess_move r (chess s) (trim raw) = None"
    and "parseUciMove (toLowerCase (trim raw)) = Some u"
    and "applyChaosMove r (fen s) u (chess_turn r (chess s)) (fullmove s) = Some ch"
    and "chess_load r (ch_fen ch) = Some p"
  shows "\<exists>s2 ev mv. step cfg r ply resp s = Some (Continue, s2)
           \<and> fen s2 = ch_fen ch \<and> chess s2 = p \<and> moves s2 = moves s @ [ch_san ch]
           \<and> closed s2 = closed s \<and> is_strike ev \<and> out s2 = out s @ [ev, Move mv]
           \<and> mv_move mv = ch_san ch \<and> mv_fen mv = ch_fen ch \<and> mv_note mv = Some chaosNote"
proof -
  let ?a = "chess_turn r (chess s)"
  let ?s4 = "noteIllegal cfg r ply ?a (trim raw) (toLowerCase (trim raw)) s"
  obtain ev where ev: "is_strike ev" "out ?s4 = out s @ [ev]" using noteIllegal_out by blast
  have a: "applyChaosMove r (fen ?s4) u (chess_turn r (chess ?s4)) (fullmove ?s4) = Some ch"
    using assms(6) by (simp add: noteIllegal_fields)
  from chaosBlock_loaded[OF assms(1,5) a assms(7), of ply ?a "rs_moveTime resp"] ev
  show ?thesis
    unfolding chaos_illegal_step[OF assms(1-4)] by (auto simp: noteIllegal_fields)
qed



lemma first_ply_fields:
  "fen (first_ply cfg) = start_fen" "chess (first_ply cfg) = \<lparr>bp_fen = start_fen, bp_history = []\<rparr>"
  "fullmove (first_ply cfg) = 1" "moves (first_ply cfg) = []" "\<not> closed (first_ply cfg)"
  "illegalCounts (first_ply cfg) = \<lparr>white = 0, black = 0\<rparr>"
  "chess_turn book_chess (chess (first_ply cfg)) = White"
  "filter is_move (out (first_ply cfg)) = []" "filter is_end (out (first_ply cfg)) = []"
  "length (out (first_ply cfg)) = 1"
  by (simp_all add: first_ply_def book_turn_start)


subsection \<open>Three strikes and the clock\<close>

lemma answer_time_at:
  "state_at_ply cfg r ag n = Some s \<Longrightarrow> answer_time cfg r ag n = rs_moveTime (ag n (request_for cfg r s))"
  by (simp add: answer_time_def)

lemma run_ends_at:
  assumes "state_at_ply cfg r ag n = Some s" "n < MAX_PLY"
    and "step cfg r n (ag n (request_for cfg r s)) s = Some (Return, s')"
  shows "start cfg r ag = Some s'"
  using start_from_ply[OF assms(1)] ply_loop_Return[of n cfg r ag s s'] assms(2,3) by simp

lemma run_goes_on:
  assumes "state_at_ply cfg r ag n = Some s"
    and "step cfg r n (ag n (request_for cfg r s)) s = Some (Continue, s')"
  shows "state_at_ply cfg r ag (Suc n) = Some s'"
  using assms by simp

lemma flag_ply:
  assumes "isBullet cfg" "cget (chess_turn r (chess s)) (clocks s) - rs_moveTime resp \<le> 0"
  shows "\<exists>s' st res. step cfg r ply resp s = Some (Return, s') \<and> closed s'
           \<and> out s' = out s @ [st, End res] \<and> \<not> is_strike st \<and> res_reason res = Timeout
           \<and> res_winner res = Winner (opponent (chess_turn r (chess s)))
           \<and> res_moves res = moves s \<and> res_illegalCounts res = illegalCounts s"
proof -
  have k: "ply_kind_of cfg r resp s = FlagFall" using assms by (simp add: ply_kind_of_def)
  show ?thesis
    by (simp add: step_by_kind k Let_def flagOnTime_out chargeClock_fields buildResult_fields)
qed

lemma answers_in_time_le: "answers_in_time clock ts \<le> length ts"
  by (induction ts arbitrary: clock) auto

lemma answers_in_time_less: "clock_falls clock ts \<Longrightarrow> answers_in_time clock ts < length ts"
  by (induction ts arbitrary: clock) auto

text \<open>
  The run of an agent whose text the rules library refuses, from a ply that begins with
  \<open>k\<close> strikes of the side to move and nothing played.
\<close>

lemma scripted_from:
  assumes nc: "mode cfg \<noteq> Chaos"
    and nr: "toLowerCase (trim tok) \<noteq> ''resign''"
    and always: "\<And>ply rq. rs_outcome (ag ply rq) = Returned tok"
  shows "state_at_ply cfg r ag k = Some s \<Longrightarrow> k + n = 3 \<Longrightarrow> 0 < n \<Longrightarrow>
     chess_move r (chess s) (trim tok) = None \<Longrightarrow> moves s = [] \<Longrightarrow>
     cget (chess_turn r (chess s)) (illegalCounts s) = k \<Longrightarrow>
     length (filter is_strike (out s)) = k \<Longrightarrow> length (out s) = Suc k \<Longrightarrow>
     \<exists>sf res. start cfg r ag = Some sf \<and> closed sf \<and> last (out sf) = End res
        \<and> res_winner res = Winner (opponent (chess_turn r (chess s))) \<and> res_moves res = []
        \<and> length (filter is_strike (out sf)) = cget (chess_turn r (chess s)) (res_illegalCounts res)
        \<and> (if isBullet cfg \<and> clock_falls (cget (chess_turn r (chess s)) (clocks s))
                                 (map (answer_time cfg r ag) [k..<3])
           then res_reason res = Timeout
              \<and> cget (chess_turn r (chess s)) (res_illegalCounts res)
                  = k + answers_in_time (cget (chess_turn r (chess s)) (clocks s))
                                        (map (answer_time cfg r ag) [k..<3])
           else res_reason res = Illegal \<and> cget (chess_turn r (chess s)) (res_illegalCounts res) = 3
              \<and> length (out sf) = 5)"
proof (induction n arbitrary: k s)
  case 0
  then show ?case by simp
next
  case (Suc n)
  let ?a = "chess_turn r (chess s)"
  let ?resp = "ag k (request_for cfg r s)"
  let ?t = "rs_moveTime ?resp"
  let ?cl = "cget ?a (clocks s)"
  note at = Suc.prems(1) and rej = Suc.prems(4) and nomoves = Suc.prems(5) and cnt = Suc.prems(6)
    and inv = Suc.prems(5-8)
  have k3: "k < 3" using Suc.prems(2) by simp
  have kM: "k < MAX_PLY" using k3 by (simp add: MAX_PLY_def)
  have ts: "map (answer_time cfg r ag) [k..<3] = ?t # map (answer_time cfg r ag) [Suc k..<3]"
    using k3 by (simp add: upt_conv_Cons answer_time_at[OF at])
  show ?case
  proof (cases "isBullet cfg \<and> ?cl - ?t \<le> 0")
    case True
    from flag_ply[of cfg r s ?resp k] True
    obtain s' st res where st: "step cfg r k ?resp s = Some (Return, s')" and f: "closed s'"
      "out s' = out s @ [st, End res]" "\<not> is_strike st" "res_reason res = Timeout"
      "res_winner res = Winner (opponent ?a)" "res_moves res = moves s"
      "res_illegalCounts res = illegalCounts s"
      by blast
    have "start cfg r ag = Some s'" by (rule run_ends_at[OF at kM st])
    then show ?thesis
      using f True inv by (intro exI[of _ s'] exI[of _ res]) (simp add: ts)
  next
    case False
    then have q: "isBullet cfg \<longrightarrow> ?t < ?cl" by auto
    from refused_ply[OF nc always nr rej q, of k]
    obtain fl s' s4 ev where st: "step cfg r k ?resp s = Some (fl, s')"
      and s4: "is_strike ev" "out s4 = out s @ [ev]" "closed s4 = closed s" "moves s4 = moves s"
        "chess s4 = chess s" "illegalCounts s4 = cset ?a (cget ?a (illegalCounts s) + 1) (illegalCounts s)"
        "clocks s4 = clocks (chargeClock cfg ?a ?t s)"
      and alt: "(fl, s') = (if 3 \<le> cget ?a (illegalCounts s) + 1
                         then (Return, endMatch cfg r (Winner (opponent ?a)) Illegal s4)
                         else (Continue, s4))"
      by blast
    have n4: "cget ?a (illegalCounts s4) = Suc k" by (simp add: s4(6) cnt cget_cset)
    have cl4: "isBullet cfg \<Longrightarrow> cget ?a (clocks s4) = ?cl - ?t"
      using False by (simp add: s4(7) chargeClock_fields cget_cset)
    show ?thesis
    proof (cases "k = 2")
      case True
      let ?res = "buildResult r (Winner (opponent ?a)) Illegal (moves s4) (illegalCounts s4) (chess s4)
                    (clockSnapshot cfg s4) (Some (lastIllegalMoves s4))"
      let ?sf = "endMatch cfg r (Winner (opponent ?a)) Illegal s4"
      from alt True cnt have "fl = Return" "s' = ?sf" by simp_all
      with st have run: "start cfg r ag = Some ?sf" using run_ends_at[OF at kM] by simp
      have e: "map (answer_time cfg r ag) [k..<3] = [?t]" using ts True by simp
      have l: "length (out s) = 3" "length (filter is_strike (out s)) = 2" "cget ?a (illegalCounts s4) = 3"
        using inv n4 True by simp_all
      show ?thesis
        using False s4(1) nomoves l run
        by (intro exI[of _ ?sf] exI[of _ ?res])
           (simp add: e endMatch_fields buildResult_fields s4(2,4))
    next
      case k2: False
      with k3 have "\<not> 3 \<le> cget ?a (illegalCounts s) + 1" using cnt by simp
      with alt have "fl = Continue" "s' = s4" by simp_all
      with st have at4: "state_at_ply cfg r ag (Suc k) = Some s4" using run_goes_on[OF at] by simp
      have n0: "Suc k + n = 3" "0 < n" using Suc.prems(2) k2 k3 by simp_all
      have rej4: "chess_move r (chess s4) (trim tok) = None" using rej by (simp add: s4(5))
      have m4: "moves s4 = []" using nomoves by (simp add: s4(4))
      have f4: "length (filter is_strike (out s4)) = Suc k" using inv s4(1) by (simp add: s4(2))
      have l4: "length (out s4) = Suc (Suc k)" using inv by (simp add: s4(2))
      from Suc.IH[OF at4 n0 rej4, unfolded s4(5), OF m4 n4 f4 l4]
      obtain sf res where run: "start cfg r ag = Some sf" "closed sf" "last (out sf) = End res"
        "res_winner res = Winner (opponent ?a)" "res_moves res = []"
        "length (filter is_strike (out sf)) = cget ?a (res_illegalCounts res)"
        and out: "if isBullet cfg \<and> clock_falls (cget ?a (clocks s4)) (map (answer_time cfg r ag) [Suc k..<3])
           then res_reason res = Timeout
              \<and> cget ?a (res_illegalCounts res)
                  = Suc k + answers_in_time (cget ?a (clocks s4)) (map (answer_time cfg r ag) [Suc k..<3])
           else res_reason res = Illegal \<and> cget ?a (res_illegalCounts res) = 3 \<and> length (out sf) = 5"
        by blast
      show ?thesis
      proof (cases "isBullet cfg")
        case True
        with out cl4 False run show ?thesis
          by (intro exI[of _ sf] exI[of _ res]) (simp add: ts)
      next
        case nb: False
        with out run show ?thesis
          by (intro exI[of _ sf] exI[of _ res]) simp
      qed
    qed
  qed
qed

lemma scripted_unparseable_run:
  assumes nc: "mode cfg \<noteq> Chaos"
    and init: "initialState cfg r = Some i0"
    and rej: "chess_move r (chess i0) (trim tok) = None"
    and nr: "toLowerCase (trim tok) \<noteq> ''resign''"
    and always: "\<And>ply rq. rs_outcome (ag ply rq) = Returned tok"
  shows "\<exists>sf res. start cfg r ag = Some sf \<and> closed sf \<and> last (out sf) = End res
        \<and> res_winner res = Winner (opponent (chess_turn r (chess i0))) \<and> res_moves res = []
        \<and> length (filter is_strike (out sf)) = cget (chess_turn r (chess i0)) (res_illegalCounts res)
        \<and> (if isBullet cfg \<and> clock_falls (initialClockMs cfg) (map (answer_time cfg r ag) [0..<3])
           then res_reason res = Timeout
              \<and> cget (chess_turn r (chess i0)) (res_illegalCounts res)
                  = answers_in_time (initialClockMs cfg) (map (answer_time cfg r ag) [0..<3])
              \<and> cget (chess_turn r (chess i0)) (res_illegalCounts res) < 3
           else res_reason res = Illegal \<and> cget (chess_turn r (chess i0)) (res_illegalCounts res) = 3
              \<and> length (out sf) = 5)"
proof -
  let ?a = "chess_turn r (chess i0)"
  define s0 where "s0 = send i0 (Status MatchStarting None (clockSnapshot cfg i0) None)"
  have i0: "illegalCounts i0 = \<lparr>white = 0, black = 0\<rparr>" "moves i0 = []" "out i0 = []"
    "clocks i0 = \<lparr>white = initialClockMs cfg, black = initialClockMs cfg\<rparr>"
    using init by (auto simp: initialState_def Let_def split: option.splits)
  have s0: "chess s0 = chess i0" "cget ?a (illegalCounts s0) = 0" "moves s0 = []"
    "length (out s0) = Suc 0" "length (filter is_strike (out s0)) = 0" "cget ?a (clocks s0) = initialClockMs cfg"
    by (cases ?a; simp add: s0_def send_def i0)+
  have at: "state_at_ply cfg r ag 0 = Some s0" by (simp add: init s0_def)
  have rej0: "chess_move r (chess s0) (trim tok) = None" using rej by (simp add: s0(1))
  have lt: "answers_in_time (initialClockMs cfg) (map (answer_time cfg r ag) [0..<3]) < 3"
    if "clock_falls (initialClockMs cfg) (map (answer_time cfg r ag) [0..<3])"
    using answers_in_time_less[OF that] by simp
  from scripted_from[OF nc nr always at _ _ rej0, unfolded s0(1), OF _ _ s0(3,2,5,4), of 3]
  show ?thesis using lt by (auto simp: s0(6) split: if_splits)
qed

lemma constant_agent_time: "0 \<le> t \<Longrightarrow> answer_time cfg r (constant_agent oc t) n \<le> t"
  by (simp add: answer_time_def constant_agent_def split: option.splits)

lemma clock_outlasts_short_answers:
  "\<forall>t \<in> set ts. t \<le> b \<Longrightarrow> 0 \<le> b \<Longrightarrow> of_nat (length ts) * b < clock \<Longrightarrow> \<not> clock_falls clock ts"
proof (induction ts arbitrary: clock)
  case Nil
  then show ?case by simp
next
  case (Cons t ts)
  have tb: "t \<le> b" using Cons.prems(1) by simp
  have "of_nat (length ts) * b + b < clock" using Cons.prems(3) by (simp add: algebra_simps)
  with tb have rest: "of_nat (length ts) * b < clock - t" by simp
  moreover have "0 \<le> of_nat (length ts) * b" using Cons.prems(2) by simp
  ultimately have "0 < clock - t" by simp
  moreover have "\<not> clock_falls (clock - t) ts" using Cons.IH[OF _ Cons.prems(2) rest] Cons.prems(1) by simp
  ultimately show ?case by simp
qed

text \<open>
  Claim C2, as amended. In the strict and timed variants the strike counters are below 3
  when a ply begins; as soon as a strike (a refused text or an empty response) brings a
  counter to 3 the match ends in that ply, right after the status event of the strike, with
  reason "illegal" and the other colour as winner, and a strike that leaves the counter
  below 3 lets the loop go on. With an agent that always returns the same text, which the
  rules library refuses in the starting position and which is not the resignation token,
  the match is lost by the side to move at the start with nothing played: after exactly
  three strikes and with reason "illegal", unless, in the timed variant, the clock of that
  side falls during one of its first three answers; then the match ends at that answer
  with reason "timeout", after as many strikes as answers came in time, fewer than three.
\<close>

theorem three_strikes_forfeit:
  assumes "mode cfg \<noteq> Chaos"
  shows "(state_at_ply cfg r ag n = Some sn \<longrightarrow> cget c (illegalCounts sn) < 3)
       \<and> (step cfg r ply resp s = Some (fl, s')
            \<and> (ply_kind_of cfg r resp s = IllegalAttempt \<or> ply_kind_of cfg r resp s = EmptyResponse) \<longrightarrow>
            (3 \<le> cget (chess_turn r (chess s)) (illegalCounts s) + 1 \<longrightarrow>
               fl = Return \<and> closed s'
               \<and> (\<exists>ev res. is_strike ev \<and> out s' = out s @ [ev, End res] \<and> res_reason res = Illegal
                     \<and> res_winner res = Winner (opponent (chess_turn r (chess s)))
                     \<and> cget (chess_turn r (chess s)) (res_illegalCounts res)
                         = cget (chess_turn r (chess s)) (illegalCounts s) + 1
                     \<and> res_moves res = moves s))
            \<and> (cget (chess_turn r (chess s)) (illegalCounts s) + 1 < 3 \<longrightarrow> fl = Continue))
       \<and> (initialState cfg r = Some i0 \<and> chess_move r (chess i0) (trim tok) = None
            \<and> toLowerCase (trim tok) \<noteq> ''resign''
            \<and> (\<forall>k rq. rs_outcome (ag' k rq) = Returned tok) \<longrightarrow>
            (\<exists>sf res. start cfg r ag' = Some sf \<and> closed sf \<and> last (out sf) = End res
               \<and> res_winner res = Winner (opponent (chess_turn r (chess i0))) \<and> res_moves res = []
               \<and> length (filter is_strike (out sf)) = cget (chess_turn r (chess i0)) (res_illegalCounts res)
               \<and> (if isBullet cfg \<and> clock_falls (initialClockMs cfg) (map (answer_time cfg r ag') [0..<3])
                  then res_reason res = Timeout
                     \<and> cget (chess_turn r (chess i0)) (res_illegalCounts res)
                         = answers_in_time (initialClockMs cfg) (map (answer_time cfg r ag') [0..<3])
                     \<and> cget (chess_turn r (chess i0)) (res_illegalCounts res) < 3
                  else res_reason res = Illegal
                     \<and> cget (chess_turn r (chess i0)) (res_illegalCounts res) = 3
                     \<and> length (out sf) = 5)))"
proof (intro conjI impI)
  assume "state_at_ply cfg r ag n = Some sn"
  then show "cget c (illegalCounts sn) < 3" by (rule strikes_below_three[OF assms])
next
  let ?a = "chess_turn r (chess s)"
  assume h: "step cfg r ply resp s = Some (fl, s')
            \<and> (ply_kind_of cfg r resp s = IllegalAttempt \<or> ply_kind_of cfg r resp s = EmptyResponse)"
  then obtain s4 ev where
    f: "is_strike ev" "out s4 = out s @ [ev]" "moves s4 = moves s"
       "illegalCounts s4 = cset ?a (cget ?a (illegalCounts s) + 1) (illegalCounts s)"
       "(fl, s') = (if 3 \<le> cget ?a (illegalCounts s) + 1
                     then (Return, endMatch cfg r (Winner (opponent ?a)) Illegal s4) else (Continue, s4))"
    using strike_ply[OF assms, of r ply resp s fl s'] by blast
  {
    assume "3 \<le> cget ?a (illegalCounts s) + 1"
    with f(5) have r: "fl = Return" "s' = endMatch cfg r (Winner (opponent ?a)) Illegal s4" by simp_all
    show "fl = Return" by (rule r(1))
    show "closed s'" by (simp add: r(2) endMatch_fields)
    show "\<exists>ev res. is_strike ev \<and> out s' = out s @ [ev, End res] \<and> res_reason res = Illegal
                     \<and> res_winner res = Winner (opponent ?a)
                     \<and> cget ?a (res_illegalCounts res) = cget ?a (illegalCounts s) + 1
                     \<and> res_moves res = moves s"
      using f(1)
      by (intro exI[of _ ev] exI[of _ "buildResult r (Winner (opponent ?a)) Illegal (moves s4)
              (illegalCounts s4) (chess s4) (clockSnapshot cfg s4) (Some (lastIllegalMoves s4))"])
         (simp add: r(2) endMatch_fields buildResult_fields f(2,3,4) cget_cset)
  }
  {
    assume "cget ?a (illegalCounts s) + 1 < 3"
    with f(5) show "fl = Continue" by simp
  }
next
  assume h: "initialState cfg r = Some i0 \<and> chess_move r (chess i0) (trim tok) = None
            \<and> toLowerCase (trim tok) \<noteq> ''resign''
            \<and> (\<forall>k rq. rs_outcome (ag' k rq) = Returned tok)"
  show "\<exists>sf res. start cfg r ag' = Some sf \<and> closed sf \<and> last (out sf) = End res
               \<and> res_winner res = Winner (opponent (chess_turn r (chess i0))) \<and> res_moves res = []
               \<and> length (filter is_strike (out sf)) = cget (chess_turn r (chess i0)) (res_illegalCounts res)
               \<and> (if isBullet cfg \<and> clock_falls (initialClockMs cfg) (map (answer_time cfg r ag') [0..<3])
                  then res_reason res = Timeout
                     \<and> cget (chess_turn r (chess i0)) (res_illegalCounts res)
                         = answers_in_time (initialClockMs cfg) (map (answer_time cfg r ag') [0..<3])
                     \<and> cget (chess_turn r (chess i0)) (res_illegalCounts res) < 3
                  else res_reason res = Illegal
                     \<and> cget (chess_turn r (chess i0)) (res_illegalCounts res) = 3
                     \<and> length (out sf) = 5)"
    by (rule scripted_unparseable_run[OF assms]) (use h in auto)
qed

theorem three_strikes_forfeit_witness:
  "(\<exists>sf res. start strict_config book_chess (constant_agent (Returned ''zzzz'') 10) = Some sf \<and> closed sf
       \<and> last (out sf) = End res \<and> res_reason res = Illegal \<and> res_winner res = Winner Black
       \<and> white (res_illegalCounts res) = 3 \<and> res_moves res = []
       \<and> length (filter is_strike (out sf)) = 3 \<and> length (out sf) = 5)
   \<and> (\<exists>sf res. start bullet_config book_chess (constant_agent (Returned ''zzzz'') 10) = Some sf \<and> closed sf
       \<and> last (out sf) = End res \<and> res_reason res = Illegal \<and> res_winner res = Winner Black
       \<and> white (res_illegalCounts res) = 3 \<and> res_moves res = []
       \<and> length (filter is_strike (out sf)) = 3 \<and> length (out sf) = 5)"
proof -
  let ?ag = "constant_agent (Returned ''zzzz'') 10"
  have "\<forall>t \<in> set (map (answer_time bullet_config book_chess ?ag) [0..<3]). t \<le> 10"
    by (simp add: constant_agent_time)
  then have quick: "\<not> clock_falls (initialClockMs bullet_config) (map (answer_time bullet_config book_chess ?ag) [0..<3])"
    by (rule clock_outlasts_short_answers) (simp_all add: bullet_1min)
  from three_strikes_forfeit [OF strict_not_bullet(2), where r = book_chess and tok = "''zzzz''"
          and ag' = ?ag
          and ?i0.0 = "the (initialState strict_config book_chess)", THEN conjunct2, THEN conjunct2]
        three_strikes_forfeit [OF bullet_not_chaos, where r = book_chess and tok = "''zzzz''"
          and ag' = ?ag
          and ?i0.0 = "the (initialState bullet_config book_chess)", THEN conjunct2, THEN conjunct2]
  show ?thesis
    using quick
    by (simp add: book_initial text_zzzz book_move_zzzz constant_agent_def book_turn_start strict_not_bullet)
       (elim conjE exE, simp)
qed

text \<open>
  A one-minute timed match against an agent that answers zzzz after 30 s each time: the
  first answer is a strike, the second finds the clock at zero, and the match ends on
  time with one strike counted.
\<close>

theorem unparseable_agent_loses_on_time:
  "parseUciMove ''zzzz'' = None
   \<and> chess_move book_chess (chess (first_ply bullet_config)) (trim ''zzzz'') = None
   \<and> map_option res_reason
        (Option.bind (start bullet_config book_chess (constant_agent (Returned ''zzzz'') 30000)) result_of)
       = Some Timeout
   \<and> map_option res_winner
        (Option.bind (start bullet_config book_chess (constant_agent (Returned ''zzzz'') 30000)) result_of)
       = Some (Winner Black)
   \<and> map_option (white \<circ> res_illegalCounts)
        (Option.bind (start bullet_config book_chess (constant_agent (Returned ''zzzz'') 30000)) result_of)
       = Some 1
   \<and> map_option (length \<circ> filter is_strike \<circ> out)
        (start bullet_config book_chess (constant_agent (Returned ''zzzz'') 30000))
       = Some 1"
proof -
  let ?ag = "constant_agent (Returned ''zzzz'') 30000"
  let ?s0 = "first_ply bullet_config"
  let ?resp = "\<lparr>rs_outcome = Returned ''zzzz'', rs_moveTime = 30000\<rparr>"
  have ag: "\<And>k rq. ?ag k rq = ?resp" by (simp add: constant_agent_def)
  have at0: "state_at_ply bullet_config book_chess ?ag 0 = Some ?s0" by (rule book_first_ply)
  have q0: "isBullet bullet_config \<longrightarrow> rs_moveTime ?resp < cget (chess_turn book_chess (chess ?s0)) (clocks ?s0)"
    by (simp add: first_ply_def bullet_1min book_turn_start)
  from refused_ply[OF bullet_not_chaos _ _ _ q0, of "''zzzz''" 0]
  obtain s1 ev where st0: "step bullet_config book_chess 0 ?resp ?s0 = Some (Continue, s1)"
    and s1: "is_strike ev" "out s1 = out ?s0 @ [ev]" "moves s1 = moves ?s0" "chess s1 = chess ?s0"
      "illegalCounts s1 = cset White 1 (illegalCounts ?s0)"
      "clocks s1 = clocks (chargeClock bullet_config White 30000 ?s0)"
    by (auto simp: text_zzzz book_move_zzzz first_ply_fields book_turn_start)
  have at1: "state_at_ply bullet_config book_chess ?ag 1 = Some s1"
    using run_goes_on[OF at0] st0 by (simp add: ag)
  have turn1: "chess_turn book_chess (chess s1) = White" by (simp add: s1(4) first_ply_fields book_turn_start)
  have cl1: "white (clocks s1) = 30000"
    by (simp add: s1(6) chargeClock_fields bullet_1min first_ply_def)
  have fall: "cget (chess_turn book_chess (chess s1)) (clocks s1) - rs_moveTime ?resp \<le> 0"
    by (simp add: turn1 cl1)
  from flag_ply[OF bullet_1min(1) fall, of 1]
  obtain sf st res where st1: "step bullet_config book_chess 1 ?resp s1 = Some (Return, sf)"
    and sf: "out sf = out s1 @ [st, End res]" "\<not> is_strike st" "res_reason res = Timeout"
      "res_winner res = Winner (opponent White)" "res_illegalCounts res = illegalCounts s1"
    by (auto simp: turn1)
  have run: "start bullet_config book_chess ?ag = Some sf"
    using run_ends_at[OF at1] st1 by (simp add: ag MAX_PLY_def)
  have res: "result_of sf = Some res" using result_of_End[of sf "out s1 @ [st]" res] sf(1) by simp
  have "parseUciMove ''zzzz'' = None" by (simp add: parse_eval string_eval nth_opt_nth)
  then show ?thesis
    using s1(1) sf(2)
    by (simp add: run res sf s1(2,5) text_zzzz book_move_zzzz first_ply_fields cget_cset first_ply_def)
qed

subsection \<open>Chaos plies, whatever the state\<close>












subsection \<open>What every iteration does\<close>













subsection \<open>The loop comes to an end\<close>












subsection \<open>A king is taken\<close>











subsection \<open>Replaying the move history\<close>















end
